theory Spec2Isabelle
  imports Main "HOL-Library.Word"
begin

unbundle bit_operations_syntax

section \<open>XModem file transfer: the two implementations of the repository\<close>

text \<open>
  The repository holds the protocol twice: as free functions over global state
  (the file with \<open>HANDLE hSerial; bool useCRC\<close> at top level) and as the class
  \<open>XModem\<close> of \<open>zad2/src/x.cpp\<close>. The checksum functions, the CRC table, the
  sender and the receiver's block-reception loop are the same statements in both, up to
  console logging; the receivers differ in how they open the output file and in their
  start phase. Shared code is embedded once, the two receivers separately.
\<close>

subsection \<open>Constants\<close>

type_synonym byte = "8 word"

definition SOH :: byte where "SOH = 0x01"
definition EOT :: byte where "EOT = 0x04"
definition ACK :: byte where "ACK = 0x06"
definition NAK :: byte where "NAK = 0x15"
definition CAN :: byte where "CAN = 0x18"
definition C :: byte where "C = 0x43"

definition BLOCK_SIZE :: nat where "BLOCK_SIZE = 128"
definition MAX_RETRIES :: nat where "MAX_RETRIES = 10"

subsection \<open>Checksum and CRC\<close>

text \<open>
  \<open>calculateChecksum\<close>: \<open>uint8_t sum = 0; for (byte : data) sum += byte;\<close>.
  The addition is done in \<open>int\<close> and stored back into a \<open>uint8_t\<close>, which is
  addition of 8-bit words.
\<close>

definition calculateChecksum :: "byte list \<Rightarrow> byte" where
  "calculateChecksum data = fold (\<lambda>b s. s + b) data 0"

definition crc16tab :: "16 word list" where
  "crc16tab = [
     0x0000, 0x1021, 0x2042, 0x3063, 0x4084, 0x50A5, 0x60C6, 0x70E7,
     0x8108, 0x9129, 0xA14A, 0xB16B, 0xC18C, 0xD1AD, 0xE1CE, 0xF1EF,
     0x1231, 0x0210, 0x3273, 0x2252, 0x52B5, 0x4294, 0x72F7, 0x62D6,
     0x9339, 0x8318, 0xB37B, 0xA35A, 0xD3BD, 0xC39C, 0xF3FF, 0xE3DE,
     0x2462, 0x3443, 0x0420, 0x1401, 0x64E6, 0x74C7, 0x44A4, 0x5485,
     0xA56A, 0xB54B, 0x8528, 0x9509, 0xE5EE, 0xF5CF, 0xC5AC, 0xD58D,
     0x3653, 0x2672, 0x1611, 0x0630, 0x76D7, 0x66F6, 0x5695, 0x46B4,
     0xB75B, 0xA77A, 0x9719, 0x8738, 0xF7DF, 0xE7FE, 0xD79D, 0xC7BC,
     0x48C4, 0x58E5, 0x6886, 0x78A7, 0x0840, 0x1861, 0x2802, 0x3823,
     0xC9CC, 0xD9ED, 0xE98E, 0xF9AF, 0x8948, 0x9969, 0xA90A, 0xB92B,
     0x5AF5, 0x4AD4, 0x7AB7, 0x6A96, 0x1A71, 0x0A50, 0x3A33, 0x2A12,
     0xDBFD, 0xCBDC, 0xFBBF, 0xEB9E, 0x9B79, 0x8B58, 0xBB3B, 0xAB1A,
     0x6CA6, 0x7C87, 0x4CE4, 0x5CC5, 0x2C22, 0x3C03, 0x0C60, 0x1C41,
     0xEDAE, 0xFD8F, 0xCDEC, 0xDDCD, 0xAD2A, 0xBD0B, 0x8D68, 0x9D49,
     0x7E97, 0x6EB6, 0x5ED5, 0x4EF4, 0x3E13, 0x2E32, 0x1E51, 0x0E70,
     0xFF9F, 0xEFBE, 0xDFDD, 0xCFFC, 0xBF1B, 0xAF3A, 0x9F59, 0x8F78,
     0x9188, 0x81A9, 0xB1CA, 0xA1EB, 0xD10C, 0xC12D, 0xF14E, 0xE16F,
     0x1080, 0x00A1, 0x30C2, 0x20E3, 0x5004, 0x4025, 0x7046, 0x6067,
     0x83B9, 0x9398, 0xA3FB, 0xB3DA, 0xC33D, 0xD31C, 0xE37F, 0xF35E,
     0x02B1, 0x1290, 0x22F3, 0x32D2, 0x4235, 0x5214, 0x6277, 0x7256,
     0xB5EA, 0xA5CB, 0x95A8, 0x8589, 0xF56E, 0xE54F, 0xD52C, 0xC50D,
     0x34E2, 0x24C3, 0x14A0, 0x0481, 0x7466, 0x6447, 0x5424, 0x4405,
     0xA7DB, 0xB7FA, 0x8799, 0x97B8, 0xE75F, 0xF77E, 0xC71D, 0xD73C,
     0x26D3, 0x36F2, 0x0691, 0x16B0, 0x6657, 0x7676, 0x4615, 0x5634,
     0xD94C, 0xC96D, 0xF90E, 0xE92F, 0x99C8, 0x89E9, 0xB98A, 0xA9AB,
     0x5844, 0x4865, 0x7806, 0x6827, 0x18C0, 0x08E1, 0x3882, 0x28A3,
     0xCB7D, 0xDB5C, 0xEB3F, 0xFB1E, 0x8BF9, 0x9BD8, 0xABBB, 0xBB9A,
     0x4A75, 0x5A54, 0x6A37, 0x7A16, 0x0AF1, 0x1AD0, 0x2AB3, 0x3A92,
     0xFD2E, 0xED0F, 0xDD6C, 0xCD4D, 0xBDAA, 0xAD8B, 0x9DE8, 0x8DC9,
     0x7C26, 0x6C07, 0x5C64, 0x4C45, 0x3CA2, 0x2C83, 0x1CE0, 0x0CC1,
     0xEF1F, 0xFF3E, 0xCF5D, 0xDF7C, 0xAF9B, 0xBFBA, 0x8FD9, 0x9FF8,
     0x6E17, 0x7E36, 0x4E55, 0x5E74, 0x2E93, 0x3EB2, 0x0ED1, 0x1EF0]"

text \<open>
  One round of the loop of \<open>calculateCRC16\<close>:
  \<open>crc = (crc << 8) ^ crc16tab[((crc >> 8) ^ byte) & 0xFF]\<close>. The operands are promoted
  to the 32-bit \<open>int\<close>, and the assignment to the \<open>uint16_t\<close> keeps the low 16 bits.
\<close>

definition crc16_round :: "byte \<Rightarrow> 16 word \<Rightarrow> 16 word" where
  "crc16_round b crc =
     (let c = (ucast crc :: 32 word);
          idx = (drop_bit 8 c XOR ucast b) AND 0xFF
      in ucast (push_bit 8 c XOR ucast (crc16tab ! unat idx)))"

definition calculateCRC16 :: "byte list \<Rightarrow> 16 word" where
  "calculateCRC16 data = fold crc16_round data 0"

text \<open>
  The reference the table and the function are compared with, written from the
  definition of CRC16-CCITT as the XModem protocol uses it: polynomial \<open>0x1021\<close>,
  initial value 0, most significant bit first, no reflection, no final XOR.
  \<open>ccitt_shift\<close> is one bit of polynomial division, \<open>ccitt_entry i\<close> the remainder
  of the byte \<open>i\<close> (the canonical table entry), \<open>ccitt_bitwise\<close> the CRC of a
  message computed bit by bit without any table.
\<close>

definition ccitt_shift :: "16 word \<Rightarrow> 16 word" where
  "ccitt_shift x = (if bit x 15 then push_bit 1 x XOR 0x1021 else push_bit 1 x)"

definition ccitt_entry :: "nat \<Rightarrow> 16 word" where
  "ccitt_entry i = (ccitt_shift ^^ 8) (push_bit 8 (of_nat i))"

definition ccitt_byte :: "byte \<Rightarrow> 16 word \<Rightarrow> 16 word" where
  "ccitt_byte b crc = (ccitt_shift ^^ 8) (crc XOR push_bit 8 (ucast b))"

definition ccitt_bitwise :: "byte list \<Rightarrow> 16 word" where
  "ccitt_bitwise data = fold ccitt_byte data 0"

subsection \<open>The serial line\<close>

text \<open>
  The serial port is outside the program. It is modelled by what the program can observe
  of it: the outcome of each call of \<open>ReadFile\<close>, in the order of the calls.
  \<open>ReadError\<close> is a call that returns \<open>FALSE\<close>; \<open>ReadData bs\<close> is a call
  that returns \<open>TRUE\<close> with the bytes \<open>bs\<close> available before the timeout, so that
  \<open>ReadData []\<close> is a timeout; an outcome with more bytes than the call asked for is
  cut to the count asked for. A line is a function from the number of the call to its
  outcome, so that every sequence of outcomes is a line. The program ignores the result
  of every \<open>WriteFile\<close>, so writing is modelled by the log of the bytes handed to it.
\<close>

datatype read_event = ReadError | ReadData "byte list"

type_synonym line = "nat \<Rightarrow> read_event"

record io =
  reads :: nat
  sent :: "byte list"

text \<open>
  \<open>readWithTimeout\<close> resizes the buffer to \<open>count\<close> and returns \<open>-1\<close> on error
  and the number of bytes read otherwise; the model returns the result, the buffer and
  the state.
\<close>

definition readWithTimeout :: "line \<Rightarrow> nat \<Rightarrow> 'a io_scheme \<Rightarrow> int \<times> byte list \<times> 'a io_scheme" where
  "readWithTimeout ln count s =
     (case ln (reads s) of
        ReadError \<Rightarrow> (- 1, replicate count 0, s\<lparr>reads := Suc (reads s)\<rparr>)
      | ReadData bs \<Rightarrow>
          (int (length (take count bs)),
           take count bs @ replicate (count - length bs) 0,
           s\<lparr>reads := Suc (reads s)\<rparr>))"

text \<open>
  \<open>readByteWithTimeout(uint8_t& byte)\<close> assigns \<open>byte\<close> only when exactly one byte
  was read. The reference parameter is an argument (the old value) and a result (the new
  one). Where the source passes a variable it has not initialised, the model passes 0;
  the source uses such a variable only after a read that assigned it.
\<close>

definition readByteWithTimeout :: "line \<Rightarrow> byte \<Rightarrow> 'a io_scheme \<Rightarrow> int \<times> byte \<times> 'a io_scheme" where
  "readByteWithTimeout ln byte s =
     (case readWithTimeout ln 1 s of
        (result, buffer, s') \<Rightarrow> (result, if result = 1 then buffer ! 0 else byte, s'))"

definition writeAll :: "byte list \<Rightarrow> 'a io_scheme \<Rightarrow> 'a io_scheme" where
  "writeAll buffer s = s\<lparr>sent := sent s @ buffer\<rparr>"

definition writeByte :: "byte \<Rightarrow> 'a io_scheme \<Rightarrow> 'a io_scheme" where
  "writeByte byte s = writeAll [byte] s"

text \<open>
  A \<open>return\<close> from inside a loop leaves the function with its result; otherwise control
  goes on after the loop.
\<close>

datatype ('r, 'a) flow = Return 'r | Go 'a

subsection \<open>The receiver\<close>

text \<open>
  The variables of \<open>receiveFile\<close> that live across loop rounds, and the content written
  to the output file so far. \<open>blockNumber\<close>, \<open>blockNumberComplement\<close> and the
  variables declared inside the loop are written and read within one round and are bound
  locally in the model.
\<close>

record receiver = io +
  outFile :: "byte list"
  expectedBlock :: byte
  headerByte :: byte
  receiving :: bool

text \<open>\<open>if (useCRC) writeByte(C); else writeByte(NAK);\<close>\<close>

definition requestAgain :: "bool \<Rightarrow> receiver \<Rightarrow> receiver" where
  "requestAgain useCRC s = (if useCRC then writeByte C s else writeByte NAK s)"

text \<open>
  The first part of a round of the block-reception loop, entered with
  \<open>headerByte == SOH\<close>: block number and complement, payload, trailer and its check.
  \<open>Inl\<close> is a \<open>continue\<close> (with the state after the answer was written),
  \<open>Inr\<close> a block that passed, with its number and payload. The sum
  \<open>blockNumber + blockNumberComplement\<close> is computed in \<open>int\<close> and does not wrap.
\<close>

definition readBlock :: "bool \<Rightarrow> line \<Rightarrow> receiver \<Rightarrow> receiver + (byte \<times> byte list \<times> receiver)" where
  "readBlock useCRC ln s =
     (case readByteWithTimeout ln 0 s of (r1, blockNumber', s1) \<Rightarrow>
      if r1 \<le> 0 then Inl (requestAgain useCRC s1)
      else case readByteWithTimeout ln 0 s1 of (r2, blockNumberComplement', s2) \<Rightarrow>
      if r2 \<le> 0 then Inl (requestAgain useCRC s2)
      else if unat blockNumber' + unat blockNumberComplement' \<noteq> 255
        then Inl (requestAgain useCRC s2)
      else case readWithTimeout ln BLOCK_SIZE s2 of (dataResult, dataBlock, s3) \<Rightarrow>
      if dataResult \<noteq> int BLOCK_SIZE then Inl (requestAgain useCRC s3)
      else if useCRC then
        (case readByteWithTimeout ln 0 s3 of (r4, crcHigh, s4) \<Rightarrow>
         if r4 \<le> 0 then Inl (writeByte NAK s4)
         else case readByteWithTimeout ln 0 s4 of (r5, crcLow, s5) \<Rightarrow>
         if r5 \<le> 0 then Inl (writeByte NAK s5)
         else
           let receivedCRC = (push_bit 8 (ucast crcHigh) OR ucast crcLow :: 16 word);
               calculatedCRC = calculateCRC16 dataBlock
           in if receivedCRC \<noteq> calculatedCRC then Inl (writeByte NAK s5)
              else Inr (blockNumber', dataBlock, s5))
      else
        (case readByteWithTimeout ln 0 s3 of (r4, receivedChecksum, s4) \<Rightarrow>
         if r4 \<le> 0 then Inl (writeByte NAK s4)
         else
           let calculatedChecksum = calculateChecksum dataBlock
           in if receivedChecksum \<noteq> calculatedChecksum then Inl (writeByte NAK s4)
              else Inr (blockNumber', dataBlock, s4)))"

text \<open>
  The duplicate and sequencing chain. \<open>expectedBlock - 1\<close> is computed in \<open>int\<close>
  (it is \<open>-1\<close> for \<open>expectedBlock == 0\<close>); \<open>expectedBlock++\<close> wraps from 255 to 0.
  \<open>file.write\<close> appends the whole \<open>dataBlock\<close> when the stream is open and does
  nothing on a stream that failed to open. \<open>Inl\<close> is the \<open>continue\<close> of the last
  branch.
\<close>

definition acceptBlock :: "bool \<Rightarrow> byte \<Rightarrow> byte list \<Rightarrow> receiver \<Rightarrow> receiver + receiver" where
  "acceptBlock opened blockNumber' dataBlock s =
     (if int (unat blockNumber') = int (unat (expectedBlock s)) - 1 \<and> unat (expectedBlock s) > 1
        then Inr (writeByte ACK s)
      else if blockNumber' = expectedBlock s
        then Inr ((writeByte ACK
                    (s\<lparr>outFile := (if opened then outFile s @ dataBlock else outFile s)\<rparr>))
                  \<lparr>expectedBlock := expectedBlock s + 1\<rparr>)
      else Inl (writeByte NAK s))"

text \<open>Reading the header of the next packet, after a block was acknowledged.\<close>

definition nextHeader :: "line \<Rightarrow> receiver \<Rightarrow> receiver" where
  "nextHeader ln s =
     (case readByteWithTimeout ln (headerByte s) s of (r, hb, s1) \<Rightarrow>
      if r \<le> 0 then writeByte NAK (s1\<lparr>headerByte := hb\<rparr>)
      else
        let s2 = s1\<lparr>headerByte := hb\<rparr>
        in if hb = EOT then (writeByte ACK s2)\<lparr>receiving := False\<rparr>
           else if hb \<noteq> SOH then writeByte NAK s2
           else s2)"

text \<open>One round of \<open>while (receiving)\<close>.\<close>

definition receiveRound :: "bool \<Rightarrow> bool \<Rightarrow> line \<Rightarrow> receiver \<Rightarrow> receiver" where
  "receiveRound useCRC opened ln s =
     (if headerByte s = SOH then
        (case readBlock useCRC ln s of
           Inl s' \<Rightarrow> s'
         | Inr (blockNumber', dataBlock, s1) \<Rightarrow>
             (case acceptBlock opened blockNumber' dataBlock s1 of
                Inl s' \<Rightarrow> s'
              | Inr s2 \<Rightarrow> nextHeader ln s2))
      else if headerByte s = EOT then (writeByte ACK s)\<lparr>receiving := False\<rparr>
      else
        (case readByteWithTimeout ln (headerByte s) (writeByte NAK s) of
           (r, hb, s1) \<Rightarrow> s1\<lparr>headerByte := hb\<rparr>))"

text \<open>
  The loop has no counter and no exit but \<open>receiving = false\<close>; it may run forever,
  which is the value \<open>None\<close>.
\<close>

partial_function (option) receiveLoop :: "bool \<Rightarrow> bool \<Rightarrow> line \<Rightarrow> receiver \<Rightarrow> receiver option" where
  "receiveLoop useCRC opened ln s =
     (if receiving s then receiveLoop useCRC opened ln (receiveRound useCRC opened ln s)
      else Some s)"

text \<open>
  The start phase of the free function: \<open>for (int i = 0; i < 6; ++i)\<close>. \<open>Go\<close> with
  \<open>receiving\<close> set is the \<open>break\<close>, \<open>Go\<close> without it the end of the \<open>for\<close>.
  The nested tests \<open>if (read > 0) { if (SOH) ... else if (EOT) ... }\<close> are written as
  one chain.
\<close>

function awaitStart :: "bool \<Rightarrow> line \<Rightarrow> nat \<Rightarrow> receiver \<Rightarrow> (bool \<times> receiver, receiver) flow" where
  "awaitStart useCRC ln i s =
     (if i < 6 then
        (case readByteWithTimeout ln (headerByte s) (writeByte (if useCRC then C else NAK) s) of
           (r, hb, s1) \<Rightarrow>
             let s2 = s1\<lparr>headerByte := hb\<rparr>
             in if r > 0 \<and> hb = SOH then Go (s2\<lparr>receiving := True\<rparr>)
                else if r > 0 \<and> hb = EOT then Return (True, writeByte ACK s2)
                else awaitStart useCRC ln (i + 1) s2)
      else Go s)"
  by pat_completeness auto
termination
  by (relation "measure (\<lambda>(useCRC, ln, i, s). 6 - i)") auto

declare awaitStart.simps [simp del]

text \<open>
  The state at the entry of \<open>receiveFile\<close>. The output file is created empty.
  \<open>headerByte\<close> is not initialised by the source.
\<close>

definition receiver_init :: "bool \<Rightarrow> receiver" where
  "receiver_init rcv =
     \<lparr>reads = 0, sent = [], outFile = [], expectedBlock = 1, headerByte = 0, receiving = rcv\<rparr>"

text \<open>
  \<open>receiveFile\<close>, the free function. It does not test whether the output stream
  opened; \<open>opened\<close> tells whether it did. The result is \<open>None\<close> when the function
  does not return.
\<close>

definition receiveFile :: "bool \<Rightarrow> bool \<Rightarrow> line \<Rightarrow> (bool \<times> receiver) option" where
  "receiveFile useCRC opened ln =
     (case awaitStart useCRC ln 0 (receiver_init False) of
        Return res \<Rightarrow> Some res
      | Go s \<Rightarrow>
          if \<not> receiving s then Some (False, s)
          else (case receiveLoop useCRC opened ln s of
                  None \<Rightarrow> None
                | Some s' \<Rightarrow> Some (True, s')))"

text \<open>
  The start phase of \<open>XModem::receiveFile\<close>: \<open>while (retries < 6)\<close>, with the
  wall-clock test after each failed attempt. The clock is outside the program:
  \<open>late n\<close> tells whether 60 seconds or more had passed when the test ran with
  \<open>retries == n\<close>. \<open>Go\<close> carries \<open>retries\<close> for the test after the loop.
\<close>

function XModem_awaitStart ::
    "bool \<Rightarrow> line \<Rightarrow> (nat \<Rightarrow> bool) \<Rightarrow> nat \<Rightarrow> receiver \<Rightarrow> (bool \<times> receiver, nat \<times> receiver) flow" where
  "XModem_awaitStart useCRC ln late retries s =
     (if retries < 6 then
        (case readByteWithTimeout ln (headerByte s) (requestAgain useCRC s) of
           (r, hb, s1) \<Rightarrow>
             let s2 = s1\<lparr>headerByte := hb\<rparr>
             in if r > 0 \<and> hb = SOH then Go (retries, s2)
                else if r > 0 \<and> hb = EOT then Return (True, writeByte ACK s2)
                else if late (retries + 1) then Return (False, s2)
                else XModem_awaitStart useCRC ln late (retries + 1) s2)
      else Go (retries, s))"
  by pat_completeness auto
termination
  by (relation "measure (\<lambda>(useCRC, ln, late, retries, s). 6 - retries)") auto

declare XModem_awaitStart.simps [simp del]

text \<open>\<open>XModem::receiveFile\<close>: it returns at once when the output stream did not open.\<close>

definition XModem_receiveFile :: "bool \<Rightarrow> bool \<Rightarrow> line \<Rightarrow> (nat \<Rightarrow> bool) \<Rightarrow> (bool \<times> receiver) option" where
  "XModem_receiveFile useCRC opened ln late =
     (if \<not> opened then Some (False, receiver_init True)
      else
        (case XModem_awaitStart useCRC ln late 0 (receiver_init True) of
           Return res \<Rightarrow> Some res
         | Go (retries, s) \<Rightarrow>
             if retries \<ge> 6 then Some (False, s)
             else (case receiveLoop useCRC opened ln s of
                     None \<Rightarrow> None
                   | Some s' \<Rightarrow> Some (True, s'))))"

subsection \<open>The sender\<close>

text \<open>
  \<open>sendFile\<close> is the same in both implementations. The frame is built in place:
  \<open>packet.resize\<close>, three indexed stores, \<open>std::copy\<close> of the buffer to index 3,
  and the trailer. \<open>255 - blockNumber\<close> is computed in \<open>int\<close> and lies in 0..255.
\<close>

definition resize :: "nat \<Rightarrow> byte list \<Rightarrow> byte list" where
  "resize n v = take n v @ replicate (n - length v) 0"

definition buildPacket :: "bool \<Rightarrow> byte \<Rightarrow> byte list \<Rightarrow> byte list \<Rightarrow> byte list" where
  "buildPacket crcMode blockNo buf pkt =
     (if crcMode then
        (let p0 = resize (BLOCK_SIZE + 5) pkt;
             p1 = p0[0 := SOH];
             p2 = p1[1 := blockNo];
             p3 = p2[2 := 255 - blockNo];
             p4 = take 3 p3 @ buf @ drop (3 + length buf) p3;
             crc = calculateCRC16 buf;
             p5 = p4[BLOCK_SIZE + 3 := ucast (drop_bit 8 crc AND 0xFF)]
         in p5[BLOCK_SIZE + 4 := ucast (crc AND 0xFF)])
      else
        (let p0 = resize (BLOCK_SIZE + 4) pkt;
             p1 = p0[0 := SOH];
             p2 = p1[1 := blockNo];
             p3 = p2[2 := 255 - blockNo];
             p4 = take 3 p3 @ buf @ drop (3 + length buf) p3
         in p4[BLOCK_SIZE + 3 := calculateChecksum buf]))"

text \<open>
  The variables of \<open>sendFile\<close> and the mode flag (a global in one implementation,
  a member in the other).
\<close>

record sender = io +
  useCRC :: bool
  blockNumber :: byte
  retries :: nat
  waitingForInitiation :: bool
  buffer :: "byte list"
  packet :: "byte list"

text \<open>
  Waiting for \<open>NAK\<close> or \<open>C\<close>. Only a failed read counts as a retry; any other byte
  is dropped without counting, so this loop need not end.
\<close>

definition initiationRound :: "line \<Rightarrow> sender \<Rightarrow> sender" where
  "initiationRound ln s =
     (case readByteWithTimeout ln 0 s of (r, response, s1) \<Rightarrow>
      if r > 0 then
        (if response = NAK then s1\<lparr>useCRC := False, waitingForInitiation := False\<rparr>
         else if response = C then s1\<lparr>useCRC := True, waitingForInitiation := False\<rparr>
         else s1)
      else s1\<lparr>retries := retries s1 + 1\<rparr>)"

partial_function (option) awaitInitiation :: "line \<Rightarrow> sender \<Rightarrow> sender option" where
  "awaitInitiation ln s =
     (if waitingForInitiation s \<and> retries s < MAX_RETRIES
      then awaitInitiation ln (initiationRound ln s)
      else Some s)"

text \<open>
  \<open>while (!blockAcked && retries < MAX_RETRIES)\<close>: build the frame, write it, read
  one answer. \<open>Return\<close> is the \<open>return false\<close> on \<open>CAN\<close>. The nested tests
  on the answer are written as one chain, in the order of the source; \<open>retries++\<close>
  ends every round that does not return.
\<close>

definition sendAttempt :: "line \<Rightarrow> sender \<Rightarrow> int \<times> byte \<times> sender" where
  "sendAttempt ln s =
     (let s1 = s\<lparr>packet := buildPacket (useCRC s) (blockNumber s) (buffer s) (packet s)\<rparr>
      in readByteWithTimeout ln 0 (writeAll (packet s1) s1))"

function sendBlock :: "line \<Rightarrow> bool \<Rightarrow> sender \<Rightarrow> (bool \<times> sender, bool \<times> sender) flow" where
  "sendBlock ln blockAcked s =
     (if \<not> blockAcked \<and> retries s < MAX_RETRIES then
        (case sendAttempt ln s of (r, response, s1) \<Rightarrow>
         if r > 0 \<and> response = ACK
           then sendBlock ln True
                  (s1\<lparr>blockNumber := blockNumber s1 + 1, retries := retries s1 + 1\<rparr>)
         else if r > 0 \<and> response \<noteq> NAK \<and> response = CAN
           then Return (False, s1)
         else sendBlock ln blockAcked (s1\<lparr>retries := retries s1 + 1\<rparr>))
      else Go (blockAcked, s))"
  by pat_completeness auto
termination
  by (relation "measure (\<lambda>(ln, blockAcked, s). MAX_RETRIES - retries s)")
     (auto simp: sendAttempt_def readByteWithTimeout_def readWithTimeout_def writeAll_def Let_def
           split: read_event.splits)

declare sendBlock.simps [simp del]

text \<open>\<open>while (!eotAcked && retries < MAX_RETRIES)\<close>: write \<open>EOT\<close>, read one answer.\<close>

function sendEOT :: "line \<Rightarrow> bool \<Rightarrow> sender \<Rightarrow> bool \<times> sender" where
  "sendEOT ln eotAcked s =
     (if \<not> eotAcked \<and> retries s < MAX_RETRIES then
        (case readByteWithTimeout ln 0 (writeByte EOT s) of (r, response, s1) \<Rightarrow>
         sendEOT ln (if r > 0 \<and> response = ACK then True else eotAcked)
           (s1\<lparr>retries := retries s1 + 1\<rparr>))
      else (eotAcked, s))"
  by pat_completeness auto
termination
  by (relation "measure (\<lambda>(ln, eotAcked, s). MAX_RETRIES - retries s)")
     (auto simp: readByteWithTimeout_def readWithTimeout_def writeByte_def writeAll_def
           split: read_event.splits)

declare sendEOT.simps [simp del]

text \<open>
  \<open>file.read(buffer.data(), BLOCK_SIZE)\<close> and the padding with \<open>0x1A\<close>. The
  input stream is the list of the bytes not read yet: the bytes read overwrite the front
  of the buffer, \<open>gcount\<close> is their number, and a stream at its end reads nothing.
\<close>

definition readChunk :: "byte list \<Rightarrow> sender \<Rightarrow> nat \<times> byte list \<times> sender" where
  "readChunk file s =
     (let chunk = take BLOCK_SIZE file;
          bytesRead = length chunk
      in (bytesRead, drop BLOCK_SIZE file, s\<lparr>buffer := chunk @ drop bytesRead (buffer s)\<rparr>))"

definition padBuffer :: "nat \<Rightarrow> sender \<Rightarrow> sender" where
  "padBuffer bytesRead s =
     (if bytesRead < BLOCK_SIZE
      then s\<lparr>buffer := take bytesRead (buffer s)
                         @ replicate (length (buffer s) - bytesRead) 0x1A\<rparr>
      else s)"

text \<open>
  \<open>while (true)\<close>: one chunk of the file per round, until the file is exhausted and
  \<open>EOT\<close> is sent.
\<close>

function sendBlocks :: "line \<Rightarrow> byte list \<Rightarrow> sender \<Rightarrow> bool \<times> sender" where
  "sendBlocks ln file s =
     (case readChunk file s of (bytesRead, file', s1) \<Rightarrow>
      if bytesRead = 0 then
        (case sendEOT ln False (s1\<lparr>retries := 0\<rparr>) of (eotAcked, s2) \<Rightarrow>
         if \<not> eotAcked then (False, s2) else (True, s2))
      else
        (case sendBlock ln False ((padBuffer bytesRead s1)\<lparr>retries := 0\<rparr>) of
           Return res \<Rightarrow> res
         | Go (blockAcked, s2) \<Rightarrow>
             if \<not> blockAcked then (False, s2) else sendBlocks ln file' s2))"
  by pat_completeness auto
termination
  by (relation "measure (\<lambda>(ln, file, s). length file)")
     (auto simp: readChunk_def Let_def BLOCK_SIZE_def)

declare sendBlocks.simps [simp del]

definition sender_init :: "bool \<Rightarrow> sender" where
  "sender_init crcMode =
     \<lparr>reads = 0, sent = [], useCRC = crcMode, blockNumber = 1, retries = 0,
      waitingForInitiation = True, buffer = replicate BLOCK_SIZE 0, packet = []\<rparr>"

text \<open>
  \<open>sendFile\<close>. \<open>opened\<close> tells whether the input stream opened, \<open>file\<close> is its
  content, \<open>crcMode\<close> the value of \<open>useCRC\<close> at the call. The result is \<open>None\<close>
  when the function does not return.
\<close>

definition sendFile :: "bool \<Rightarrow> bool \<Rightarrow> byte list \<Rightarrow> line \<Rightarrow> (bool \<times> sender) option" where
  "sendFile crcMode opened file ln =
     (if \<not> opened then Some (False, sender_init crcMode)
      else
        (case awaitInitiation ln (sender_init crcMode) of
           None \<Rightarrow> None
         | Some s \<Rightarrow>
             if waitingForInitiation s then Some (False, s)
             else Some (sendBlocks ln file s)))"

subsection \<open>Notions used in the statements\<close>

text \<open>
  The byte that a read of a single byte obtains from an outcome: none on an error or a
  timeout, the first byte otherwise.
\<close>

fun delivers :: "read_event \<Rightarrow> byte option" where
  "delivers ReadError = None"
| "delivers (ReadData []) = None"
| "delivers (ReadData (b # bs)) = Some b"

text \<open>
  The frame on the wire as the specification lays it out (132 bytes with the checksum,
  133 with the CRC, high byte first), and the \<open>i\<close>-th block of a file, padded with
  \<open>0x1A\<close>. They are what the frames built in place by \<open>buildPacket\<close> are compared with.
\<close>

definition frame :: "bool \<Rightarrow> byte \<Rightarrow> byte list \<Rightarrow> byte list" where
  "frame crcMode blockNo payload =
     [SOH, blockNo, 255 - blockNo] @ payload
     @ (if crcMode
        then [ucast (drop_bit 8 (calculateCRC16 payload) AND 0xFF),
              ucast (calculateCRC16 payload AND 0xFF)]
        else [calculateChecksum payload])"

definition chunk :: "byte list \<Rightarrow> nat \<Rightarrow> byte list" where
  "chunk file i =
     (let c = take BLOCK_SIZE (drop (BLOCK_SIZE * i) file)
      in c @ replicate (BLOCK_SIZE - length c) 0x1A)"

text \<open>
  The calls of \<open>ReadFile\<close> that the round of the loop entered in state \<open>t\<close> makes
  for a single byte. A round entered with \<open>SOH\<close> reads the block number, the
  complement, the payload and then the trailer and the next header, so all of its calls
  but the third ask for one byte; a round entered with another header makes at most one
  call, for one byte. \<open>byte_read\<close> holds of the numbers of these calls, and
  \<open>EOT_never_read\<close> of the lines on which, in the run of the loop from the state
  \<open>s\<close>, none of these calls obtains \<open>EOT\<close>. What a read of the payload obtains
  is not restricted.
\<close>

definition byte_read :: "bool \<Rightarrow> bool \<Rightarrow> line \<Rightarrow> receiver \<Rightarrow> nat \<Rightarrow> bool" where
  "byte_read crcMode opened ln t k =
     (reads t \<le> k \<and> k < reads (receiveRound crcMode opened ln t)
      \<and> \<not> (headerByte t = SOH \<and> k = reads t + 2))"

definition EOT_never_read :: "bool \<Rightarrow> bool \<Rightarrow> line \<Rightarrow> receiver \<Rightarrow> bool" where
  "EOT_never_read crcMode opened ln s =
     (\<forall>n k. byte_read crcMode opened ln ((receiveRound crcMode opened ln ^^ n) s) k
              \<longrightarrow> delivers (ln k) \<noteq> Some EOT)"

subsection \<open>Example lines and states\<close>

text \<open>
  A line given by a finite script of read outcomes, silent (every read times out) once
  the script is used up.
\<close>

definition script :: "read_event list \<Rightarrow> line" where
  "script evs n = (if n < length evs then evs ! n else ReadData [])"

text \<open>
  A transfer of one block of 128 zero bytes in checksum mode, as the receiver reads it;
  a line that delivers \<open>SOH\<close> and then nothing; a line that delivers nothing; a line
  that carries one block whose payload is 128 times the byte \<open>EOT\<close> with a wrong
  checksum, and then nothing; a line whose third read obtains \<open>EOT\<close>; a block number followed by a wrong complement; and
  block 1 followed by the next \<open>SOH\<close>, for a receiver that already holds a header.
\<close>

definition one_block :: "read_event list" where
  "one_block = [ReadData [SOH], ReadData [1], ReadData [254], ReadData (replicate 128 0),
                ReadData [0], ReadData [EOT]]"

definition SOH_then_silence :: line where
  "SOH_then_silence = script [ReadData [SOH]]"

definition silence :: line where
  "silence = script []"

definition EOT_in_payload :: line where
  "EOT_in_payload = script [ReadData [SOH], ReadData [1], ReadData [254],
                            ReadData (replicate 128 EOT), ReadData [1]]"

definition late_EOT :: line where
  "late_EOT = script [ReadData [], ReadError, ReadData [EOT]]"

definition bad_complement :: line where
  "bad_complement = script [ReadData [1], ReadData [1]]"

definition block_one :: line where
  "block_one = script [ReadData [1], ReadData [254], ReadData (replicate 128 0), ReadData [0],
                       ReadData [SOH]]"

text \<open>A clock on which the 60 seconds of the start phase never pass.\<close>

definition never_late :: "nat \<Rightarrow> bool" where
  "never_late n = False"

text \<open>
  The receiver after six silent attempts, after the transfer of one block, and at the
  top of the loop with \<open>SOH\<close> in hand.
\<close>

definition gave_up :: receiver where
  "gave_up = \<lparr>reads = 6, sent = [NAK, NAK, NAK, NAK, NAK, NAK], outFile = [], expectedBlock = 1,
               headerByte = 0, receiving = False\<rparr>"

definition received_one :: receiver where
  "received_one = \<lparr>reads = 6, sent = [NAK, ACK, ACK], outFile = replicate 128 0,
                     expectedBlock = 2, headerByte = EOT, receiving = False\<rparr>"

definition await_block :: receiver where
  "await_block = \<lparr>reads = 0, sent = [], outFile = [], expectedBlock = 1, headerByte = SOH,
                   receiving = True\<rparr>"

text \<open>A peer that answers every read with \<open>NAK\<close>, and one that sends one \<open>ACK\<close> at read 1.\<close>

definition only_NAK :: line where
  "only_NAK n = ReadData [NAK]"

definition one_ACK_then_NAK :: line where
  "one_ACK_then_NAK n = (if n = 1 then ReadData [ACK] else ReadData [NAK])"

section \<open>Proofs\<close>

lemmas ctrl_defs = SOH_def EOT_def ACK_def NAK_def CAN_def C_def

subsection \<open>Checksum: proofs\<close>

lemma fold_add_unat:
  "unat (fold (\<lambda>b s. s + b) data (a :: byte)) = (unat a + sum_list (map unat data)) mod 256"
proof (induction data arbitrary: a)
  case Nil
  have "unat a < 256" using unsigned_less [of a, where 'a = nat] by simp
  then show ?case by simp
next
  case (Cons b bs)
  have "unat (fold (\<lambda>b s. s + b) (b # bs) a) = (unat (a + b) + sum_list (map unat bs)) mod 256"
    using Cons.IH [of "a + b"] by simp
  also have "unat (a + b) = (unat a + unat b) mod 256"
    by (simp add: unat_word_ariths)
  also have "((unat a + unat b) mod 256 + sum_list (map unat bs)) mod 256
      = (unat a + sum_list (map unat (b # bs))) mod 256"
    by (simp add: mod_add_left_eq add.assoc)
  finally show ?case .
qed

lemma fold_add_replicate:
  "fold (\<lambda>b s. s + b) (replicate n x) (a :: byte) = a + of_nat n * x"
  by (induction n arbitrary: a) (simp_all add: algebra_simps)

text \<open>
  C2, as the specification states it, asks that the checksum of 128 bytes \<open>0xFF\<close>
  be 0. The code returns \<open>0x80\<close> there: \<open>128 * 255 = 32640 = 127 * 256 + 128\<close>.
\<close>

theorem calculateChecksum_all_FF_counterexample:
  "calculateChecksum (replicate 128 0xFF) \<noteq> 0"
  unfolding calculateChecksum_def fold_add_replicate by simp

text \<open>
  C2, amended. \<open>calculateChecksum\<close> returns the sum of all bytes of the payload
  truncated to 8 bits (for a payload of any length, so for every 128-byte one); being a
  function of the payload alone it is pure and deterministic. For 128 bytes \<open>0x00\<close>
  it returns 0, and for 128 bytes \<open>0xFF\<close> it returns \<open>0x80\<close>.
\<close>

theorem calculateChecksum_sum_mod_256:
  "unat (calculateChecksum data) = sum_list (map unat data) mod 256
   \<and> calculateChecksum (replicate 128 0x00) = 0
   \<and> calculateChecksum (replicate 128 0xFF) = 0x80"
proof (intro conjI)
  show "unat (calculateChecksum data) = sum_list (map unat data) mod 256"
    by (simp add: calculateChecksum_def fold_add_unat)
  show "calculateChecksum (replicate 128 0x00) = 0"
    unfolding calculateChecksum_def fold_add_replicate by simp
  show "calculateChecksum (replicate 128 0xFF) = 0x80"
    unfolding calculateChecksum_def fold_add_replicate by simp
qed

subsection \<open>CRC: proofs\<close>

lemma ccitt_shift_alt: "ccitt_shift x = push_bit 1 x XOR (if bit x 15 then 0x1021 else 0)"
  by (simp add: ccitt_shift_def)

lemma ccitt_shift_xor: "ccitt_shift (x XOR y) = ccitt_shift x XOR ccitt_shift y"
  by (cases "bit x 15"; cases "bit y 15")
     (simp_all add: ccitt_shift_alt bit_xor_iff push_bit_xor xor.assoc xor.commute xor.left_commute)

lemma ccitt_shift_pow_xor: "(ccitt_shift ^^ n) (x XOR y) = (ccitt_shift ^^ n) x XOR (ccitt_shift ^^ n) y"
  by (induction n arbitrary: x y) (simp_all add: ccitt_shift_xor funpow_swap1)

lemma ccitt_shift_low:
  "k \<le> 8 \<Longrightarrow> (ccitt_shift ^^ k) (ucast (lo :: byte)) = push_bit k (ucast lo)"
proof (induction k)
  case 0
  then show ?case by simp
next
  case (Suc k)
  have nb: "\<not> bit (push_bit k (ucast lo :: 16 word)) 15"
    using Suc.prems by (auto simp: bit_simps dest: bit_imp_le_length)
  have "(ccitt_shift ^^ Suc k) (ucast lo) = ccitt_shift (push_bit k (ucast lo))"
    using Suc by simp
  also have "\<dots> = push_bit 1 (push_bit k (ucast lo))"
    using nb by (simp add: ccitt_shift_def)
  also have "\<dots> = push_bit (Suc k) (ucast lo)"
    by (simp add: push_bit_push_bit)
  finally show ?case .
qed

lemma split_crc:
  "(crc :: 16 word) XOR push_bit 8 (ucast (b :: byte))
     = push_bit 8 (ucast ((ucast (drop_bit 8 crc) :: byte) XOR b)) XOR ucast (ucast crc :: byte)"
  by (rule bit_eqI) (auto simp: bit_simps)

lemma idx_word:
  "((drop_bit 8 (ucast (crc :: 16 word) :: 32 word) XOR ucast (b :: byte)) AND 0xFF)
      = ucast ((ucast (drop_bit 8 crc) :: byte) XOR b)"
proof -
  have m: "(0xFF :: 32 word) = mask 8" by (simp add: mask_eq_exp_minus_1)
  show ?thesis
    unfolding m
    by (rule bit_eqI) (auto simp: bit_simps dest: bit_imp_le_length)
qed

lemma idx_eq:
  "unat ((drop_bit 8 (ucast (crc :: 16 word) :: 32 word) XOR ucast (b :: byte)) AND 0xFF)
     = unat ((ucast (drop_bit 8 crc) :: byte) XOR b)"
proof -
  have "unat ((ucast (drop_bit 8 crc) :: byte) XOR b) < 2 ^ 8"
    using unsigned_less [of "(ucast (drop_bit 8 crc) :: byte) XOR b", where 'a = nat] by simp
  then have "unat ((ucast (drop_bit 8 crc) :: byte) XOR b) < 2 ^ 32"
    by simp
  then show ?thesis
    unfolding idx_word by (simp add: unsigned_ucast_eq take_bit_nat_eq_self)
qed

lemma trunc_eq:
  "(ucast (push_bit 8 (ucast (crc :: 16 word) :: 32 word) XOR ucast (t :: 16 word)) :: 16 word)
     = push_bit 8 crc XOR t"
  by (rule bit_eqI) (auto simp: bit_simps dest: bit_imp_le_length)

lemma push_low: "push_bit 8 (ucast (ucast (crc :: 16 word) :: byte) :: 16 word) = push_bit 8 crc"
  by (rule bit_eqI) (auto simp: bit_simps dest: bit_imp_le_length)


lemma funpow8: "(f ^^ 8) x = f (f (f (f (f (f (f (f x)))))))"
  by (simp add: eval_nat_numeral)

lemma crc16tab_canonical: "crc16tab = map ccitt_entry [0..<256]"
  unfolding crc16tab_def
  by (simp add: upt_conv_Cons ccitt_entry_def funpow8 ccitt_shift_def)

lemma crc16tab_nth: "crc16tab ! unat (w :: byte) = (ccitt_shift ^^ 8) (push_bit 8 (ucast w))"
proof -
  have lt: "unat w < 256"
    using unsigned_less [of w, where 'a = nat] by simp
  then have "crc16tab ! unat w = ccitt_entry (unat w)"
    by (simp add: crc16tab_canonical)
  then show ?thesis
    by (simp add: ccitt_entry_def)
qed

lemma crc16_round_16bit:
  "crc16_round b crc = push_bit 8 crc XOR crc16tab ! unat ((ucast (drop_bit 8 crc) :: byte) XOR b)"
  by (simp add: crc16_round_def Let_def idx_eq trunc_eq)

lemma crc16_round_ccitt: "crc16_round b crc = ccitt_byte b crc"
proof -
  let ?h = "(ucast (drop_bit 8 crc) :: byte) XOR b"
  have "ccitt_byte b crc
      = (ccitt_shift ^^ 8) (push_bit 8 (ucast ?h) XOR ucast (ucast crc :: byte))"
    unfolding ccitt_byte_def split_crc ..
  also have "\<dots> = (ccitt_shift ^^ 8) (push_bit 8 (ucast ?h))
                   XOR (ccitt_shift ^^ 8) (ucast (ucast crc :: byte))"
    by (rule ccitt_shift_pow_xor)
  also have "\<dots> = crc16tab ! unat ?h XOR push_bit 8 crc"
    by (simp add: crc16tab_nth ccitt_shift_low push_low)
  finally show ?thesis
    by (simp add: crc16_round_16bit xor.commute)
qed

lemma idx16:
  "unat ((drop_bit 8 (crc :: 16 word) XOR ucast (b :: byte)) AND 0xFF)
     = unat ((ucast (drop_bit 8 crc) :: byte) XOR b)"
proof -
  have m: "(0xFF :: 16 word) = mask 8" by (simp add: mask_eq_exp_minus_1)
  have "((drop_bit 8 crc XOR ucast b) AND 0xFF) = ucast ((ucast (drop_bit 8 crc) :: byte) XOR b)"
    unfolding m
    by (rule bit_eqI) (auto simp: bit_simps dest: bit_imp_le_length)
  moreover have "unat ((ucast (drop_bit 8 crc) :: byte) XOR b) < 2 ^ 16"
    using unsigned_less [of "(ucast (drop_bit 8 crc) :: byte) XOR b", where 'a = nat] by simp
  ultimately show ?thesis
    by (simp add: unsigned_ucast_eq take_bit_nat_eq_self)
qed

text \<open>
  C3. \<open>calculateCRC16\<close> starts from 0 and applies, for each byte, the table-driven
  step \<open>crc = (crc << 8) ^ table[((crc >> 8) ^ byte) & 0xFF]\<close> in 16 bits; its table is,
  entry for entry, the table of CRC16-CCITT with polynomial \<open>0x1021\<close>; and its result is
  the CRC16-CCITT of the payload as the bit-by-bit division computes it. This holds for a
  payload of any length, so for every 128-byte one.
\<close>

theorem calculateCRC16_is_ccitt:
  "calculateCRC16 data
     = fold (\<lambda>b crc. push_bit 8 crc XOR crc16tab ! unat ((drop_bit 8 crc XOR ucast b) AND 0xFF))
         data 0
   \<and> crc16tab = map ccitt_entry [0..<256]
   \<and> calculateCRC16 data = ccitt_bitwise data"
proof (intro conjI)
  have "crc16_round = (\<lambda>b crc. push_bit 8 crc XOR crc16tab ! unat ((drop_bit 8 crc XOR ucast b) AND 0xFF))"
    by (intro ext) (simp add: crc16_round_16bit idx16)
  then show "calculateCRC16 data
     = fold (\<lambda>b crc. push_bit 8 crc XOR crc16tab ! unat ((drop_bit 8 crc XOR ucast b) AND 0xFF))
         data 0"
    by (simp add: calculateCRC16_def)
  show "crc16tab = map ccitt_entry [0..<256]"
    by (rule crc16tab_canonical)
  have "crc16_round = ccitt_byte"
    by (intro ext) (rule crc16_round_ccitt)
  then show "calculateCRC16 data = ccitt_bitwise data"
    by (simp add: calculateCRC16_def ccitt_bitwise_def)
qed

subsection \<open>Reading and writing\<close>

lemma readWithTimeout_state:
  "readWithTimeout ln n s = (r, buf, s') \<Longrightarrow> s' = s\<lparr>reads := Suc (reads s)\<rparr> \<and> length buf = n"
  by (auto simp: readWithTimeout_def split: read_event.splits)

lemma readByte_Some:
  "delivers (ln (reads s)) = Some x \<Longrightarrow>
     readByteWithTimeout ln b s = (1, x, s\<lparr>reads := Suc (reads s)\<rparr>)"
  by (cases "ln (reads s)" rule: delivers.cases)
     (auto simp: readByteWithTimeout_def readWithTimeout_def)

lemma readByte_None:
  "delivers (ln (reads s)) = None \<Longrightarrow>
     \<exists>r\<le>0. readByteWithTimeout ln b s = (r, b, s\<lparr>reads := Suc (reads s)\<rparr>)"
  by (cases "ln (reads s)" rule: delivers.cases)
     (auto simp: readByteWithTimeout_def readWithTimeout_def)

lemma readByte_state:
  "readByteWithTimeout ln b s = (r, x, s') \<Longrightarrow>
     s' = s\<lparr>reads := Suc (reads s)\<rparr>
     \<and> (if r > 0 then delivers (ln (reads s)) = Some x
        else delivers (ln (reads s)) = None \<and> x = b)"
  by (cases "ln (reads s)" rule: delivers.cases)
     (auto simp: readByteWithTimeout_def readWithTimeout_def)

lemma writeByte_simps [simp]:
  "sent (writeByte b s) = sent s @ [b]"
  "reads (writeByte b s) = reads s"
  "outFile (writeByte b t) = outFile t"
  "expectedBlock (writeByte b t) = expectedBlock t"
  "headerByte (writeByte b t) = headerByte t"
  "receiving (writeByte b t) = receiving t"
  by (simp_all add: writeByte_def writeAll_def)

lemma requestAgain_simps [simp]:
  "sent (requestAgain crc t) = sent t @ [if crc then C else NAK]"
  "reads (requestAgain crc t) = reads t"
  "outFile (requestAgain crc t) = outFile t"
  "expectedBlock (requestAgain crc t) = expectedBlock t"
  "headerByte (requestAgain crc t) = headerByte t"
  "receiving (requestAgain crc t) = receiving t"
  by (simp_all add: requestAgain_def)

lemma SOH_neq_EOT: "SOH \<noteq> EOT"
  by (simp add: ctrl_defs)

subsection \<open>The parts of a round\<close>

lemma readBlock_Inl:
  assumes "readBlock crc ln s = Inl s'"
  shows "outFile s' = outFile s \<and> expectedBlock s' = expectedBlock s
       \<and> headerByte s' = headerByte s \<and> receiving s' = receiving s
       \<and> reads s < reads s' \<and> (\<exists>b. sent s' = sent s @ [b])"
  using assms
  by (auto simp: readBlock_def Let_def dest!: readWithTimeout_state readByte_state
      split: prod.splits if_splits)

lemma readBlock_Inr:
  assumes "readBlock crc ln s = Inr (bn, blk, s')"
  shows "outFile s' = outFile s \<and> expectedBlock s' = expectedBlock s
       \<and> headerByte s' = headerByte s \<and> receiving s' = receiving s
       \<and> reads s + 3 < reads s' \<and> sent s' = sent s \<and> length blk = BLOCK_SIZE"
  using assms
  by (auto simp: readBlock_def Let_def dest!: readWithTimeout_state readByte_state
      split: prod.splits if_splits)

lemma acceptBlock_Inl:
  "acceptBlock opened bn blk s = Inl s' \<Longrightarrow> s' = writeByte NAK s"
  by (auto simp: acceptBlock_def split: if_splits)

lemma acceptBlock_Inr:
  "acceptBlock opened bn blk s = Inr s' \<Longrightarrow>
     sent s' = sent s @ [ACK] \<and> reads s' = reads s
     \<and> headerByte s' = headerByte s \<and> receiving s' = receiving s
     \<and> (outFile s' = outFile s \<or> bn = expectedBlock s \<and> outFile s' = outFile s @ blk)"
  by (auto simp: acceptBlock_def split: if_splits)

lemma nextHeader_fields:
  "outFile (nextHeader ln s) = outFile s"
  "expectedBlock (nextHeader ln s) = expectedBlock s"
  "reads (nextHeader ln s) = Suc (reads s)"
  by (auto simp: nextHeader_def Let_def dest!: readByte_state split: prod.splits)

lemma nextHeader_header:
  "headerByte (nextHeader ln s)
     = (case delivers (ln (reads s)) of None \<Rightarrow> headerByte s | Some b \<Rightarrow> b)"
  by (auto simp: nextHeader_def Let_def dest!: readByte_state
      split: prod.splits option.splits if_splits)

lemma nextHeader_receiving:
  "receiving (nextHeader ln s) = (receiving s \<and> delivers (ln (reads s)) \<noteq> Some EOT)"
  by (auto simp: nextHeader_def Let_def dest!: readByte_state split: prod.splits if_splits)

lemma nextHeader_sent:
  "\<exists>rest. sent (nextHeader ln s) = sent s @ rest \<and> length rest \<le> 1"
  by (auto simp: nextHeader_def Let_def dest!: readByte_state split: prod.splits)

subsection \<open>A round\<close>

lemma receiveRound_outFile:
  "outFile (receiveRound crc opened ln s) = outFile s
   \<or> (\<exists>bn blk s1. headerByte s = SOH \<and> readBlock crc ln s = Inr (bn, blk, s1)
          \<and> bn = expectedBlock s \<and> length blk = BLOCK_SIZE
          \<and> outFile (receiveRound crc opened ln s) = outFile s @ blk)"
proof (cases "headerByte s = SOH")
  case False
  then show ?thesis
    by (auto simp: receiveRound_def dest!: readByte_state split: prod.splits)
next
  case True
  show ?thesis
  proof (cases "readBlock crc ln s")
    case (Inl s')
    with True readBlock_Inl [OF Inl] show ?thesis
      by (simp add: receiveRound_def)
  next
    case (Inr res)
    obtain bn blk s1 where res: "res = (bn, blk, s1)"
      by (cases res) auto
    note rb = readBlock_Inr [OF Inr [unfolded res]]
    show ?thesis
    proof (cases "acceptBlock opened bn blk s1")
      case (Inl s')
      with True Inr res rb acceptBlock_Inl [OF Inl] show ?thesis
        by (simp add: receiveRound_def)
    next
      case (Inr s2)
      with True \<open>readBlock crc ln s = Inr res\<close> res rb acceptBlock_Inr [OF Inr] show ?thesis
        by (auto simp: receiveRound_def nextHeader_fields)
    qed
  qed
qed

lemma receiveRound_reads: "reads s \<le> reads (receiveRound crc opened ln s)"
proof (cases "headerByte s = SOH")
  case False
  then show ?thesis
    by (auto simp: receiveRound_def dest!: readByte_state split: prod.splits)
next
  case True
  show ?thesis
  proof (cases "readBlock crc ln s")
    case (Inl s')
    with True readBlock_Inl [OF Inl] show ?thesis
      by (simp add: receiveRound_def)
  next
    case (Inr res)
    obtain bn blk s1 where res: "res = (bn, blk, s1)"
      by (cases res) auto
    note rb = readBlock_Inr [OF Inr [unfolded res]]
    show ?thesis
    proof (cases "acceptBlock opened bn blk s1")
      case (Inl s')
      with True Inr res rb acceptBlock_Inl [OF Inl] show ?thesis
        by (simp add: receiveRound_def)
    next
      case (Inr s2)
      with True \<open>readBlock crc ln s = Inr res\<close> res rb acceptBlock_Inr [OF Inr] show ?thesis
        by (auto simp: receiveRound_def nextHeader_fields)
    qed
  qed
qed

lemma receiveRound_EOT_in_hand:
  "headerByte t = EOT \<Longrightarrow>
     reads (receiveRound crc opened ln t) = reads t \<and> headerByte (receiveRound crc opened ln t) = EOT"
  using SOH_neq_EOT by (simp add: receiveRound_def)

lemma receiveRound_header:
  assumes "receiving t" "headerByte t \<noteq> EOT"
  shows "(receiving (receiveRound crc opened ln t) \<and> headerByte (receiveRound crc opened ln t) \<noteq> EOT)
       \<or> (headerByte (receiveRound crc opened ln t) = EOT
          \<and> byte_read crc opened ln t (reads (receiveRound crc opened ln t) - 1)
          \<and> delivers (ln (reads (receiveRound crc opened ln t) - 1)) = Some EOT)"
proof (cases "headerByte t = SOH")
  case False
  obtain r hb s1 where rd: "readByteWithTimeout ln (headerByte t) (writeByte NAK t) = (r, hb, s1)"
    by (metis prod_cases3)
  note st = readByte_state [OF rd]
  have rr: "receiveRound crc opened ln t = s1\<lparr>headerByte := hb\<rparr>"
    using False assms(2) rd by (simp add: receiveRound_def)
  show ?thesis
  proof (cases "hb = EOT")
    case False
    then show ?thesis using rr st assms(1) by simp
  next
    case True
    then have "delivers (ln (reads t)) = Some EOT"
      using st assms(2) by (auto split: if_splits)
    then show ?thesis
      using rr st True \<open>headerByte t \<noteq> SOH\<close> by (simp add: byte_read_def)
  qed
next
  case True
  show ?thesis
  proof (cases "readBlock crc ln t")
    case (Inl s')
    with True assms readBlock_Inl [OF Inl] show ?thesis
      by (simp add: receiveRound_def)
  next
    case (Inr res)
    obtain bn blk s1 where res: "res = (bn, blk, s1)"
      by (cases res) auto
    note rb = readBlock_Inr [OF Inr [unfolded res]]
    show ?thesis
    proof (cases "acceptBlock opened bn blk s1")
      case (Inl s')
      with True assms Inr res rb acceptBlock_Inl [OF Inl] show ?thesis
        by (simp add: receiveRound_def)
    next
      case (Inr s2)
      note ab = acceptBlock_Inr [OF Inr]
      have rr: "receiveRound crc opened ln t = nextHeader ln s2"
        using True \<open>readBlock crc ln t = Inr res\<close> res Inr by (simp add: receiveRound_def)
      have far: "reads t + 3 < reads s2" "receiving s2" "headerByte s2 = SOH"
        using rb ab assms(1) True by simp_all
      show ?thesis
      proof (cases "delivers (ln (reads s2)) = Some EOT")
        case True
        then show ?thesis
          unfolding rr using far
          by (simp add: nextHeader_header nextHeader_fields byte_read_def rr)
      next
        case False
        then show ?thesis
          unfolding rr using far SOH_neq_EOT
          by (auto simp: nextHeader_header nextHeader_receiving split: option.splits)
      qed
    qed
  qed
qed

subsection \<open>The loop\<close>

lemma receiveLoop_step:
  "receiving s \<Longrightarrow>
     receiveLoop crc opened ln s = receiveLoop crc opened ln (receiveRound crc opened ln s)"
  by (subst receiveLoop.simps) simp

lemma receiveLoop_stop: "\<not> receiving s \<Longrightarrow> receiveLoop crc opened ln s = Some s"
  by (subst receiveLoop.simps) simp

lemma receiveLoop_iterates:
  assumes "receiveLoop crc opened ln s = Some s'"
  shows "\<exists>n. s' = (receiveRound crc opened ln ^^ n) s \<and> \<not> receiving s'"
  using assms
proof (induction rule: receiveLoop.raw_induct [rotated 1, consumes 1])
  case (1 loop crc opened ln s s')
  show ?case
  proof (cases "receiving s")
    case False
    with 1(2) have "s' = (receiveRound crc opened ln ^^ 0) s \<and> \<not> receiving s'"
      by simp
    then show ?thesis by blast
  next
    case True
    with 1(2) have "loop crc opened ln (receiveRound crc opened ln s) = Some s'"
      by simp
    from 1(1) [OF this] obtain n where
      "s' = (receiveRound crc opened ln ^^ n) (receiveRound crc opened ln s)" "\<not> receiving s'"
      by blast
    then have "s' = (receiveRound crc opened ln ^^ Suc n) s \<and> \<not> receiving s'"
      by (simp add: funpow_swap1)
    then show ?thesis by blast
  qed
qed

lemma iterates_reads: "reads s \<le> reads ((receiveRound crc opened ln ^^ n) s)"
proof (induction n)
  case 0
  then show ?case by simp
next
  case (Suc n)
  then show ?case
    using receiveRound_reads [of "(receiveRound crc opened ln ^^ n) s" crc opened ln] by simp
qed

text \<open>
  After any number of rounds the loop is either still receiving without \<open>EOT\<close> in
  hand, or holds \<open>EOT\<close>, and then the last call of \<open>ReadFile\<close> was one for a single
  byte, made in an earlier round, and obtained \<open>EOT\<close>.
\<close>

lemma run_header:
  assumes "receiving s" "headerByte s \<noteq> EOT"
  shows "(receiving ((receiveRound crc opened ln ^^ n) s)
            \<and> headerByte ((receiveRound crc opened ln ^^ n) s) \<noteq> EOT)
       \<or> (headerByte ((receiveRound crc opened ln ^^ n) s) = EOT
          \<and> reads s < reads ((receiveRound crc opened ln ^^ n) s)
          \<and> delivers (ln (reads ((receiveRound crc opened ln ^^ n) s) - 1)) = Some EOT
          \<and> (\<exists>m<n. byte_read crc opened ln ((receiveRound crc opened ln ^^ m) s)
                      (reads ((receiveRound crc opened ln ^^ n) s) - 1)))"
proof (induction n)
  case 0
  then show ?case using assms by simp
next
  case (Suc n)
  let ?t = "(receiveRound crc opened ln ^^ n) s"
  let ?t' = "receiveRound crc opened ln ?t"
  have t': "(receiveRound crc opened ln ^^ Suc n) s = ?t'"
    by simp
  from Suc.IH show ?case
  proof
    assume a: "receiving ?t \<and> headerByte ?t \<noteq> EOT"
    have "(receiving ?t' \<and> headerByte ?t' \<noteq> EOT)
       \<or> (headerByte ?t' = EOT \<and> byte_read crc opened ln ?t (reads ?t' - 1)
          \<and> delivers (ln (reads ?t' - 1)) = Some EOT)"
      using receiveRound_header [of ?t crc opened ln] a by blast
    then show ?thesis
    proof
      assume "receiving ?t' \<and> headerByte ?t' \<noteq> EOT"
      then show ?thesis unfolding t' by blast
    next
      assume b: "headerByte ?t' = EOT \<and> byte_read crc opened ln ?t (reads ?t' - 1)
          \<and> delivers (ln (reads ?t' - 1)) = Some EOT"
      then have "reads ?t \<le> reads ?t' - 1" "reads ?t' - 1 < reads ?t'"
        by (simp_all add: byte_read_def)
      then have "reads s < reads ?t'"
        using iterates_reads [where s = s and crc = crc and opened = opened and ln = ln and n = n]
        by linarith
      moreover have "\<exists>m<Suc n. byte_read crc opened ln ((receiveRound crc opened ln ^^ m) s)
                      (reads ?t' - 1)"
        using b by blast
      ultimately show ?thesis unfolding t' using b by blast
    qed
  next
    assume b: "headerByte ?t = EOT \<and> reads s < reads ?t
          \<and> delivers (ln (reads ?t - 1)) = Some EOT
          \<and> (\<exists>m<n. byte_read crc opened ln ((receiveRound crc opened ln ^^ m) s) (reads ?t - 1))"
    then have same: "reads ?t' = reads ?t" "headerByte ?t' = EOT"
      using receiveRound_EOT_in_hand [of ?t crc opened ln] by simp_all
    have "\<exists>m<Suc n. byte_read crc opened ln ((receiveRound crc opened ln ^^ m) s) (reads ?t - 1)"
      using b less_Suc_eq by blast
    then show ?thesis
      unfolding t' same using b by blast
  qed
qed

lemma receiveLoop_returns_after_EOT:
  assumes "receiveLoop crc opened ln s = Some s'" "receiving s" "headerByte s \<noteq> EOT"
  shows "reads s < reads s' \<and> delivers (ln (reads s' - 1)) = Some EOT
       \<and> (\<exists>m. byte_read crc opened ln ((receiveRound crc opened ln ^^ m) s) (reads s' - 1))"
proof -
  from receiveLoop_iterates [OF assms(1)] obtain n where
    n: "s' = (receiveRound crc opened ln ^^ n) s" "\<not> receiving s'" by blast
  from run_header [OF assms(2,3), where crc = crc and opened = opened and ln = ln and n = n] n
  show ?thesis
    by blast
qed

lemma receiveLoop_EOT_never_read:
  assumes "EOT_never_read crc opened ln s" "receiving s" "headerByte s \<noteq> EOT"
  shows "receiveLoop crc opened ln s = None"
proof (rule ccontr)
  assume "receiveLoop crc opened ln s \<noteq> None"
  then obtain s' where "receiveLoop crc opened ln s = Some s'" by auto
  from receiveLoop_returns_after_EOT [OF this assms(2,3)] obtain m where
    "byte_read crc opened ln ((receiveRound crc opened ln ^^ m) s) (reads s' - 1)"
    "delivers (ln (reads s' - 1)) = Some EOT"
    by blast
  with assms(1) show False
    by (simp add: EOT_never_read_def)
qed

text \<open>
  A line on which no outcome at all from the state's next call on begins with \<open>EOT\<close>
  is one on which no read of a single byte obtains it.
\<close>

lemma EOT_never_read_if_absent:
  assumes "\<forall>k\<ge>reads s. delivers (ln k) \<noteq> Some EOT"
  shows "EOT_never_read crc opened ln s"
  unfolding EOT_never_read_def
proof (intro allI impI)
  fix n k
  assume "byte_read crc opened ln ((receiveRound crc opened ln ^^ n) s) k"
  then have "reads ((receiveRound crc opened ln ^^ n) s) \<le> k"
    by (simp add: byte_read_def)
  then have "reads s \<le> k"
    using iterates_reads [where s = s and crc = crc and opened = opened and ln = ln and n = n]
        by linarith
  with assms show "delivers (ln k) \<noteq> Some EOT" by blast
qed

subsection \<open>The start phase\<close>

lemma awaitStart_unfold:
  assumes "i < 6"
    and "readByteWithTimeout ln (headerByte s) (writeByte (if crc then C else NAK) s) = (r, hb, s1)"
  shows "awaitStart crc ln i s =
     (if r > 0 \<and> hb = SOH then Go (s1\<lparr>headerByte := hb, receiving := True\<rparr>)
      else if r > 0 \<and> hb = EOT then Return (True, writeByte ACK (s1\<lparr>headerByte := hb\<rparr>))
      else awaitStart crc ln (i + 1) (s1\<lparr>headerByte := hb\<rparr>))"
  by (subst awaitStart.simps) (simp add: assms Let_def)

lemma awaitStart_Go:
  "awaitStart crc ln i s = Go s' \<Longrightarrow> \<not> receiving s \<Longrightarrow>
     outFile s' = outFile s \<and> expectedBlock s' = expectedBlock s \<and> reads s \<le> reads s'
     \<and> (receiving s' \<longrightarrow> headerByte s' = SOH \<and> reads s < reads s')"
proof (induction crc ln i s rule: awaitStart.induct)
  case (1 crc ln i s)
  show ?case
  proof (cases "i < 6")
    case False
    with "1.prems" show ?thesis
      by (simp add: awaitStart.simps [of crc ln i s])
  next
    case True
    obtain r hb s1 where rd:
      "readByteWithTimeout ln (headerByte s) (writeByte (if crc then C else NAK) s) = (r, hb, s1)"
      by (metis prod_cases3)
    note st = readByte_state [OF rd]
    show ?thesis
    proof (cases "(r > 0 \<and> hb = SOH) \<or> (r > 0 \<and> hb = EOT)")
      case True
      with \<open>i < 6\<close> rd st "1.prems" show ?thesis
        by (auto simp: awaitStart.simps [of crc ln i s] Let_def split: if_splits)
    next
      case False
      with \<open>i < 6\<close> rd "1.prems"
      have rec: "awaitStart crc ln (i + 1) (s1\<lparr>headerByte := hb\<rparr>) = Go s'"
        by (auto simp: awaitStart.simps [of crc ln i s] Let_def split: if_splits)
      have "\<not> receiving (s1\<lparr>headerByte := hb\<rparr>)"
        using st "1.prems"(2) by simp
      from "1.IH" [OF \<open>i < 6\<close> rd [symmetric] refl refl _ _ rec this] False
      show ?thesis using st by auto
    qed
  qed
qed

lemma awaitStart_Return:
  "awaitStart crc ln i s = Return (res, s') \<Longrightarrow> res \<and> outFile s' = outFile s"
proof (induction crc ln i s rule: awaitStart.induct)
  case (1 crc ln i s)
  show ?case
  proof (cases "i < 6")
    case False
    with "1.prems" show ?thesis
      by (simp add: awaitStart.simps [of crc ln i s])
  next
    case True
    obtain r hb s1 where rd:
      "readByteWithTimeout ln (headerByte s) (writeByte (if crc then C else NAK) s) = (r, hb, s1)"
      by (metis prod_cases3)
    note st = readByte_state [OF rd]
    show ?thesis
    proof (cases "(r > 0 \<and> hb = SOH) \<or> (r > 0 \<and> hb = EOT)")
      case True
      with \<open>i < 6\<close> rd st "1.prems" show ?thesis
        by (auto simp: awaitStart.simps [of crc ln i s] Let_def split: if_splits)
    next
      case False
      with \<open>i < 6\<close> rd "1.prems"
      have rec: "awaitStart crc ln (i + 1) (s1\<lparr>headerByte := hb\<rparr>) = Return (res, s')"
        by (auto simp: awaitStart.simps [of crc ln i s] Let_def split: if_splits)
      from "1.IH" [OF \<open>i < 6\<close> rd [symmetric] refl refl _ _ rec] False
      show ?thesis using st by auto
    qed
  qed
qed

lemma XModem_awaitStart_unfold:
  assumes "n < 6"
    and "readByteWithTimeout ln (headerByte s) (requestAgain crc s) = (r, hb, s1)"
  shows "XModem_awaitStart crc ln late n s =
     (if r > 0 \<and> hb = SOH then Go (n, s1\<lparr>headerByte := hb\<rparr>)
      else if r > 0 \<and> hb = EOT then Return (True, writeByte ACK (s1\<lparr>headerByte := hb\<rparr>))
      else if late (n + 1) then Return (False, s1\<lparr>headerByte := hb\<rparr>)
      else XModem_awaitStart crc ln late (n + 1) (s1\<lparr>headerByte := hb\<rparr>))"
  by (subst XModem_awaitStart.simps) (simp add: assms Let_def)

lemma XModem_awaitStart_result:
  "(XModem_awaitStart crc ln late n s = Go (n', s') \<longrightarrow>
       outFile s' = outFile s \<and> receiving s' = receiving s \<and> reads s \<le> reads s'
       \<and> (n' < 6 \<longrightarrow> headerByte s' = SOH \<and> reads s < reads s'))
   \<and> (XModem_awaitStart crc ln late n s = Return (res, s') \<longrightarrow> outFile s' = outFile s)"
proof (induction crc ln late n s rule: XModem_awaitStart.induct)
  case (1 crc ln late n s)
  show ?case
  proof (cases "n < 6")
    case False
    then show ?thesis
      by (simp add: XModem_awaitStart.simps [of crc ln late n s])
  next
    case True
    obtain r hb s1 where rd:
      "readByteWithTimeout ln (headerByte s) (requestAgain crc s) = (r, hb, s1)"
      by (metis prod_cases3)
    note st = readByte_state [OF rd]
    note unf = XModem_awaitStart_unfold [OF True rd, of late]
    consider (soh) "r > 0 \<and> hb = SOH"
      | (eot) "\<not> (r > 0 \<and> hb = SOH)" "r > 0 \<and> hb = EOT"
      | (late) "\<not> (r > 0 \<and> hb = SOH)" "\<not> (r > 0 \<and> hb = EOT)" "late (n + 1)"
      | (again) "\<not> (r > 0 \<and> hb = SOH)" "\<not> (r > 0 \<and> hb = EOT)" "\<not> late (n + 1)"
      by blast
    then show ?thesis
    proof cases
      case soh
      then show ?thesis unfolding unf using st True by auto
    next
      case eot
      then show ?thesis unfolding unf using st by auto
    next
      case late
      then show ?thesis unfolding unf using st by auto
    next
      case again
      then have rec: "XModem_awaitStart crc ln late n s
                   = XModem_awaitStart crc ln late (n + 1) (s1\<lparr>headerByte := hb\<rparr>)"
        unfolding unf by auto
      have "\<not> (0 < r \<and> hb = SOH) \<and> \<not> (0 < r \<and> hb = EOT) \<and> \<not> late (n + 1)"
        using again by simp
      from "1.IH" [OF True rd [symmetric] refl refl] this
      show ?thesis unfolding rec using st by auto
    qed
  qed
qed

subsection \<open>Runs on example lines\<close>

lemma checksum_zeros: "calculateChecksum (replicate 128 0) = 0"
  unfolding calculateChecksum_def fold_add_replicate by simp

lemma script_one_block:
  "script one_block 0 = ReadData [SOH]"
  "script one_block (Suc 0) = ReadData [1]"
  "script one_block (Suc (Suc 0)) = ReadData [254]"
  "script one_block (Suc (Suc (Suc 0))) = ReadData (replicate 128 0)"
  "script one_block (Suc (Suc (Suc (Suc 0)))) = ReadData [0]"
  "script one_block (Suc (Suc (Suc (Suc (Suc 0))))) = ReadData [EOT]"
  by (simp_all add: script_def one_block_def)

lemma start_one_block:
  "awaitStart False (script one_block) 0 (receiver_init False)
     = Go \<lparr>reads = Suc 0, sent = [NAK], outFile = [], expectedBlock = 1, headerByte = SOH, receiving = True\<rparr>"
  by (simp add: awaitStart.simps [of _ _ 0] receiver_init_def readByteWithTimeout_def
      readWithTimeout_def writeByte_def writeAll_def script_one_block)

lemma round1_one_block:
  "receiveRound False True (script one_block)
      \<lparr>reads = Suc 0, sent = [NAK], outFile = [], expectedBlock = 1, headerByte = SOH, receiving = True\<rparr>
     = \<lparr>reads = 6, sent = [NAK, ACK, ACK], outFile = replicate 128 0, expectedBlock = 2,
         headerByte = EOT, receiving = False\<rparr>"
  by (simp add: receiveRound_def readBlock_def acceptBlock_def nextHeader_def
      readByteWithTimeout_def readWithTimeout_def writeByte_def writeAll_def requestAgain_def
      script_one_block BLOCK_SIZE_def checksum_zeros ctrl_defs)

lemma receiveFile_one_block:
  "receiveFile False True (script one_block)
     = Some (True, \<lparr>reads = 6, sent = [NAK, ACK, ACK], outFile = replicate 128 0,
                     expectedBlock = 2, headerByte = EOT, receiving = False\<rparr>)"
  by (simp add: receiveFile_def start_one_block receiveLoop_step round1_one_block receiveLoop_stop)

lemma XModem_start_one_block:
  "XModem_awaitStart False (script one_block) (\<lambda>n. False) 0 (receiver_init True)
     = Go (0, \<lparr>reads = Suc 0, sent = [NAK], outFile = [], expectedBlock = 1, headerByte = SOH,
               receiving = True\<rparr>)"
  by (simp add: XModem_awaitStart.simps [of _ _ _ 0] receiver_init_def readByteWithTimeout_def
      readWithTimeout_def writeByte_def writeAll_def requestAgain_def script_one_block)

lemma XModem_receiveFile_one_block:
  "XModem_receiveFile False True (script one_block) (\<lambda>n. False) = Some (True, received_one)"
  by (simp add: XModem_receiveFile_def XModem_start_one_block receiveLoop_step round1_one_block
      receiveLoop_stop received_one_def)

lemma start_silent:
  "awaitStart False silence 0 (receiver_init False) = Go gave_up"
  by (simp add: awaitStart.simps receiver_init_def readByteWithTimeout_def
      readWithTimeout_def writeByte_def writeAll_def silence_def script_def gave_up_def)

lemma XModem_start_silent:
  "XModem_awaitStart False silence (\<lambda>n. False) 0 (receiver_init True)
     = Go (6, gave_up\<lparr>receiving := True\<rparr>)"
  by (simp add: XModem_awaitStart.simps receiver_init_def readByteWithTimeout_def
      readWithTimeout_def writeByte_def writeAll_def requestAgain_def silence_def script_def gave_up_def)

lemma start_silence:
  "awaitStart False SOH_then_silence 0 (receiver_init False)
     = Go \<lparr>reads = Suc 0, sent = [NAK], outFile = [], expectedBlock = 1, headerByte = SOH,
            receiving = True\<rparr>"
  by (simp add: awaitStart.simps [of _ _ 0] receiver_init_def readByteWithTimeout_def
      readWithTimeout_def writeByte_def writeAll_def SOH_then_silence_def script_def)

lemma XModem_start_silence:
  "XModem_awaitStart False SOH_then_silence late 0 (receiver_init True)
     = Go (0, \<lparr>reads = Suc 0, sent = [NAK], outFile = [], expectedBlock = 1, headerByte = SOH,
            receiving = True\<rparr>)"
  by (simp add: XModem_awaitStart.simps [of _ _ _ 0] receiver_init_def readByteWithTimeout_def
      readWithTimeout_def writeByte_def writeAll_def requestAgain_def SOH_then_silence_def script_def)

subsection \<open>The receiver never fails once it is in the loop\<close>

text \<open>
  C10. Once the start phase has observed \<open>SOH\<close> and the block-reception loop is
  entered, every execution of \<open>receiveFile\<close> that returns, returns \<open>true\<close>; and when
  \<open>receiveFile\<close> returns \<open>false\<close>, it does so from the start phase: in the free
  function because the six attempts ended without \<open>SOH\<close>, in \<open>XModem::receiveFile\<close>
  because the output file did not open, the 60 seconds had passed, or the six attempts
  were used up.
\<close>

theorem receiveFile_fails_only_in_start_phase:
  "(awaitStart crc ln 0 (receiver_init False) = Go s \<and> receiving s
      \<and> receiveFile crc opened ln = Some (res, s') \<longrightarrow> res)
   \<and> (receiveFile crc opened ln = Some (False, s') \<longrightarrow>
        awaitStart crc ln 0 (receiver_init False) = Go s' \<and> \<not> receiving s')
   \<and> (XModem_awaitStart crc ln late 0 (receiver_init True) = Go (n, s) \<and> n < 6
      \<and> XModem_receiveFile crc True ln late = Some (res, s') \<longrightarrow> res)
   \<and> (XModem_receiveFile crc opened ln late = Some (False, s') \<longrightarrow>
        \<not> opened
        \<or> XModem_awaitStart crc ln late 0 (receiver_init True) = Return (False, s')
        \<or> (\<exists>n\<ge>6. XModem_awaitStart crc ln late 0 (receiver_init True) = Go (n, s')))"
  by (auto simp: receiveFile_def XModem_receiveFile_def
      split: flow.splits option.splits if_splits dest: awaitStart_Return)

text \<open>
  C10, at concrete lines: a transfer of one block returns \<open>true\<close>, and a silent line
  makes both receivers return \<open>false\<close> from the start phase.
\<close>

theorem receiveFile_fails_only_in_start_phase_witness:
  "receiveFile False True (script one_block) = Some (True, received_one)
   \<and> XModem_receiveFile False True (script one_block) (\<lambda>n. False) = Some (True, received_one)
   \<and> receiveFile False True silence = Some (False, gave_up) \<and> \<not> receiving gave_up
   \<and> XModem_receiveFile False True silence (\<lambda>n. False)
        = Some (False, gave_up\<lparr>receiving := True\<rparr>)"
  using receiveFile_fails_only_in_start_phase
      [of False "script one_block"
          "\<lparr>reads = Suc 0, sent = [NAK], outFile = [], expectedBlock = 1, headerByte = SOH,
             receiving = True\<rparr>" True True received_one "\<lambda>n. False" 0]
    receiveFile_fails_only_in_start_phase
      [of False silence _ True _ gave_up "\<lambda>n. False"]
    start_one_block receiveFile_one_block XModem_start_one_block XModem_receiveFile_one_block
    start_silent XModem_start_silent
  by (simp add: received_one_def receiveFile_def XModem_receiveFile_def gave_up_def)

subsection \<open>No retry budget in the loop\<close>

lemma receiveFile_EOT_never_read:
  assumes "awaitStart crc ln 0 (receiver_init False) = Go s" "receiving s"
    and "EOT_never_read crc opened ln s"
  shows "receiveFile crc opened ln = None"
proof -
  have "headerByte s = SOH"
    using awaitStart_Go [OF assms(1)] assms(2) by (simp add: receiver_init_def)
  then have "receiveLoop crc opened ln s = None"
    using receiveLoop_EOT_never_read [OF assms(3,2)] SOH_neq_EOT by simp
  then show ?thesis
    using assms(1,2) by (simp add: receiveFile_def)
qed

lemma XModem_receiveFile_EOT_never_read:
  assumes "XModem_awaitStart crc ln late 0 (receiver_init True) = Go (k, s)" "k < 6"
    and "EOT_never_read crc True ln s"
  shows "XModem_receiveFile crc True ln late = None"
proof -
  have "headerByte s = SOH" "receiving s"
    using XModem_awaitStart_result [of crc ln late 0 "receiver_init True" k s] assms(1,2)
    by (simp_all add: receiver_init_def)
  then have "receiveLoop crc True ln s = None"
    using receiveLoop_EOT_never_read [OF assms(3)] SOH_neq_EOT by simp
  then show ?thesis
    using assms(1,2) by (simp add: XModem_receiveFile_def)
qed

lemma receiveFile_returns_after_EOT:
  assumes "awaitStart crc ln 0 (receiver_init False) = Go s" "receiving s"
    and "receiveFile crc opened ln = Some (res, s')"
  shows "reads s < reads s' \<and> delivers (ln (reads s' - 1)) = Some EOT
       \<and> (\<exists>m. byte_read crc opened ln ((receiveRound crc opened ln ^^ m) s) (reads s' - 1))"
proof -
  have h: "headerByte s \<noteq> EOT"
    using awaitStart_Go [OF assms(1)] assms(2) SOH_neq_EOT by (simp add: receiver_init_def)
  have "receiveLoop crc opened ln s = Some s'"
    using assms by (simp add: receiveFile_def split: option.splits)
  from receiveLoop_returns_after_EOT [OF this assms(2) h] show ?thesis .
qed

lemma XModem_receiveFile_returns_after_EOT:
  assumes "XModem_awaitStart crc ln late 0 (receiver_init True) = Go (k, s)" "k < 6"
    and "XModem_receiveFile crc True ln late = Some (res, s')"
  shows "reads s < reads s' \<and> delivers (ln (reads s' - 1)) = Some EOT
       \<and> (\<exists>m. byte_read crc True ln ((receiveRound crc True ln ^^ m) s) (reads s' - 1))"
proof -
  have h: "headerByte s \<noteq> EOT" "receiving s"
    using XModem_awaitStart_result [of crc ln late 0 "receiver_init True" k s] assms(1,2)
      SOH_neq_EOT
    by (simp_all add: receiver_init_def)
  have "receiveLoop crc True ln s = Some s'"
    using assms by (simp add: XModem_receiveFile_def split: option.splits)
  from receiveLoop_returns_after_EOT [OF this h(2,1)] show ?thesis .
qed

lemma EOT_never_read_silence: "EOT_never_read crc opened SOH_then_silence s"
proof (rule EOT_never_read_if_absent)
  have "delivers (SOH_then_silence k) \<noteq> Some EOT" for k
    using SOH_neq_EOT by (simp add: SOH_then_silence_def script_def)
  then show "\<forall>k\<ge>reads s. delivers (SOH_then_silence k) \<noteq> Some EOT"
    by blast
qed

text \<open>
  C1, as the specification states it, asks that the receiver give up after a bounded
  number of retries. On the line that delivers \<open>SOH\<close> and then stays silent, so that the
  read of the block number fails in every round, neither receiver returns at all.
\<close>

theorem receiveFile_retries_forever_counterexample:
  "receiveFile False True SOH_then_silence = None
   \<and> XModem_receiveFile False True SOH_then_silence never_late = None"
proof
  show "receiveFile False True SOH_then_silence = None"
    by (rule receiveFile_EOT_never_read [OF start_silence]) (simp_all add: EOT_never_read_silence)
  show "XModem_receiveFile False True SOH_then_silence never_late = None"
    by (rule XModem_receiveFile_EOT_never_read [OF XModem_start_silence])
       (simp_all add: EOT_never_read_silence)
qed

text \<open>
  C1, amended. The block-reception loop has no retry budget. Once the loop is entered,
  \<open>receiveFile\<close> returns only after a read of a single byte made in the loop has
  obtained \<open>EOT\<close>, and that read is then the last call of \<open>ReadFile\<close> it made. On
  every line on which no read of a single byte made after the loop is entered obtains
  \<open>EOT\<close> (whatever the reads of the 128-byte payload obtain), \<open>receiveFile\<close> does
  not return, and so does not report failure.
\<close>

theorem receiveFile_returns_only_after_EOT:
  "(awaitStart crc ln 0 (receiver_init False) = Go s \<and> receiving s
      \<and> receiveFile crc opened ln = Some (res, s')
     \<longrightarrow> reads s < reads s' \<and> delivers (ln (reads s' - 1)) = Some EOT
         \<and> (\<exists>m. byte_read crc opened ln ((receiveRound crc opened ln ^^ m) s) (reads s' - 1)))
   \<and> (awaitStart crc ln 0 (receiver_init False) = Go s \<and> receiving s
      \<and> EOT_never_read crc opened ln s
     \<longrightarrow> receiveFile crc opened ln = None)
   \<and> (XModem_awaitStart crc ln late 0 (receiver_init True) = Go (k, s) \<and> k < 6
      \<and> XModem_receiveFile crc True ln late = Some (res, s')
     \<longrightarrow> reads s < reads s' \<and> delivers (ln (reads s' - 1)) = Some EOT
         \<and> (\<exists>m. byte_read crc True ln ((receiveRound crc True ln ^^ m) s) (reads s' - 1)))
   \<and> (XModem_awaitStart crc ln late 0 (receiver_init True) = Go (k, s) \<and> k < 6
      \<and> EOT_never_read crc True ln s
     \<longrightarrow> XModem_receiveFile crc True ln late = None)"
  using receiveFile_returns_after_EOT [of crc ln s opened res s']
    receiveFile_EOT_never_read [of crc ln s opened]
    XModem_receiveFile_returns_after_EOT [of crc ln late k s res s']
    XModem_receiveFile_EOT_never_read [of crc ln late k s]
  by blast

lemma EOT_in_payload_reads:
  "EOT_in_payload 0 = ReadData [SOH]" "EOT_in_payload (Suc 0) = ReadData [1]"
  "EOT_in_payload (Suc (Suc 0)) = ReadData [254]"
  "EOT_in_payload (Suc (Suc (Suc 0))) = ReadData (replicate 128 EOT)"
  "EOT_in_payload (Suc (Suc (Suc (Suc 0)))) = ReadData [1]"
  by (simp_all add: EOT_in_payload_def script_def)

lemma delivers_replicate: "0 < n \<Longrightarrow> delivers (ReadData (replicate n b)) = Some b"
  by (cases n) simp_all

lemma EOT_in_payload_only_at_3: "delivers (EOT_in_payload k) = Some EOT \<Longrightarrow> k = 3"
  by (auto simp: EOT_in_payload_def script_def nth_Cons' ctrl_defs split: if_splits)

lemma start_EOT_in_payload:
  "awaitStart False EOT_in_payload 0 (receiver_init False)
     = Go \<lparr>reads = Suc 0, sent = [NAK], outFile = [], expectedBlock = 1, headerByte = SOH,
            receiving = True\<rparr>"
  by (simp add: awaitStart.simps [of _ _ 0] receiver_init_def readByteWithTimeout_def
      readWithTimeout_def writeByte_def writeAll_def EOT_in_payload_reads)

lemma checksum_EOTs: "calculateChecksum (replicate 128 EOT) = 0"
  unfolding calculateChecksum_def fold_add_replicate by (simp add: EOT_def)

lemma round1_EOT_in_payload:
  "receiveRound False True EOT_in_payload
      \<lparr>reads = Suc 0, sent = [NAK], outFile = [], expectedBlock = 1, headerByte = SOH, receiving = True\<rparr>
     = \<lparr>reads = 5, sent = [NAK, NAK], outFile = [], expectedBlock = 1, headerByte = SOH,
         receiving = True\<rparr>"
  by (simp add: receiveRound_def readBlock_def readByteWithTimeout_def readWithTimeout_def
      writeByte_def writeAll_def EOT_in_payload_reads BLOCK_SIZE_def checksum_EOTs)

lemma EOT_never_read_EOT_in_payload:
  "EOT_never_read False True EOT_in_payload
     \<lparr>reads = Suc 0, sent = [NAK], outFile = [], expectedBlock = 1, headerByte = SOH,
       receiving = True\<rparr>"
  unfolding EOT_never_read_def
proof (intro allI impI notI)
  let ?s = "\<lparr>reads = Suc 0, sent = [NAK], outFile = [], expectedBlock = 1, headerByte = SOH,
       receiving = True\<rparr>"
  let ?R = "receiveRound False True EOT_in_payload"
  fix n k
  assume br: "byte_read False True EOT_in_payload ((?R ^^ n) ?s) k"
    and "delivers (EOT_in_payload k) = Some EOT"
  then have k: "k = 3" by (simp add: EOT_in_payload_only_at_3)
  show False
  proof (cases n)
    case 0
    with br k show False by (simp add: byte_read_def)
  next
    case (Suc m)
    have "(?R ^^ n) ?s = (?R ^^ m) (?R ?s)"
      unfolding Suc by (simp add: funpow_swap1)
    then have "reads (?R ?s) \<le> reads ((?R ^^ n) ?s)"
      using iterates_reads [where s = "?R ?s" and crc = False and opened = True
          and ln = EOT_in_payload and n = m]
      by simp
    then have "5 \<le> reads ((?R ^^ n) ?s)"
      by (simp add: round1_EOT_in_payload)
    with br k show False by (simp add: byte_read_def)
  qed
qed

text \<open>
  C1, amended, at three lines: the line that delivers \<open>SOH\<close> and then stays silent;
  the line whose payload read obtains 128 times \<open>EOT\<close> while no read of a single byte
  obtains it, on which the receiver does not return either; and the transfer of one
  block, where the receiver returns and its last read, the sixth, obtained \<open>EOT\<close>.
\<close>

theorem receiveFile_returns_only_after_EOT_witness:
  "delivers (SOH_then_silence 0) = Some SOH
   \<and> delivers (SOH_then_silence 7) = None
   \<and> receiveFile False False SOH_then_silence = None
   \<and> XModem_receiveFile False True SOH_then_silence never_late = None
   \<and> delivers (EOT_in_payload 3) = Some EOT
   \<and> receiveFile False True EOT_in_payload = None
   \<and> receiveFile False True (script one_block) = Some (True, received_one)
   \<and> reads received_one = 6
   \<and> delivers (script one_block 5) = Some EOT"
proof -
  let ?s = "\<lparr>reads = Suc 0, sent = [NAK], outFile = [], expectedBlock = 1, headerByte = SOH,
       receiving = True\<rparr>"
  have a: "receiveFile False False SOH_then_silence = None
      \<and> XModem_receiveFile False True SOH_then_silence never_late = None"
    using receiveFile_returns_only_after_EOT
        [where crc = False and ln = SOH_then_silence and s = ?s and opened = False
           and late = never_late and k = 0]
      start_silence XModem_start_silence [of never_late]
      EOT_never_read_silence [of False False ?s] EOT_never_read_silence [of False True ?s]
    by simp
  have b: "receiveFile False True EOT_in_payload = None"
    using receiveFile_returns_only_after_EOT
        [where crc = False and ln = EOT_in_payload and s = ?s and opened = True]
      start_EOT_in_payload EOT_never_read_EOT_in_payload
    by simp
  have c: "delivers (script one_block (reads received_one - 1)) = Some EOT"
    using receiveFile_returns_only_after_EOT
        [where crc = False and ln = "script one_block" and s = ?s and opened = True
           and res = True and s' = received_one]
      start_one_block receiveFile_one_block
    by (simp add: received_one_def)
  have d: "delivers (SOH_then_silence 0) = Some SOH" "delivers (SOH_then_silence 7) = None"
    "delivers (EOT_in_payload 3) = Some EOT" "reads received_one = 6"
    by (simp_all add: SOH_then_silence_def EOT_in_payload_def script_def received_one_def
        delivers_replicate)
  have e: "receiveFile False True (script one_block) = Some (True, received_one)"
    using receiveFile_one_block by (simp add: received_one_def)
  from a b c d e show ?thesis by simp
qed

subsection \<open>The output grows by whole blocks\<close>

lemma receiveRound_dvd:
  "128 dvd length (outFile s) \<Longrightarrow> 128 dvd length (outFile (receiveRound crc opened ln s))"
  using receiveRound_outFile [of crc opened ln s] by (auto simp: BLOCK_SIZE_def)

lemma iterates_dvd:
  "128 dvd length (outFile s) \<Longrightarrow>
     128 dvd length (outFile ((receiveRound crc opened ln ^^ n) s))"
  by (induction n) (simp_all add: receiveRound_dvd)

lemma receiveLoop_dvd:
  "receiveLoop crc opened ln s = Some s' \<Longrightarrow> 128 dvd length (outFile s) \<Longrightarrow>
     128 dvd length (outFile s')"
  using receiveLoop_iterates iterates_dvd by blast

text \<open>
  C9. A round of the loop leaves the output file as it is or appends to it exactly the
  128 bytes of one block that passed the complement test and the check and carries the
  expected number; so after the start phase and after any number of rounds, and when
  \<open>receiveFile\<close> returns, the length of the output file is a multiple of 128.
\<close>

theorem receiver_output_whole_blocks:
  "(outFile (receiveRound crc opened ln s) = outFile s
      \<or> (\<exists>bn blk s1. headerByte s = SOH \<and> readBlock crc ln s = Inr (bn, blk, s1)
            \<and> bn = expectedBlock s \<and> length blk = 128
            \<and> outFile (receiveRound crc opened ln s) = outFile s @ blk))
   \<and> (awaitStart crc ln 0 (receiver_init False) = Go s0
        \<longrightarrow> 128 dvd length (outFile ((receiveRound crc opened ln ^^ n) s0)))
   \<and> (receiveFile crc opened ln = Some (res, s') \<longrightarrow> 128 dvd length (outFile s'))
   \<and> (XModem_awaitStart crc ln late 0 (receiver_init True) = Go (k, s0)
        \<longrightarrow> 128 dvd length (outFile ((receiveRound crc opened ln ^^ n) s0)))
   \<and> (XModem_receiveFile crc opened ln late = Some (res, s') \<longrightarrow> 128 dvd length (outFile s'))"
proof (intro conjI impI)
  show "outFile (receiveRound crc opened ln s) = outFile s
      \<or> (\<exists>bn blk s1. headerByte s = SOH \<and> readBlock crc ln s = Inr (bn, blk, s1)
            \<and> bn = expectedBlock s \<and> length blk = 128
            \<and> outFile (receiveRound crc opened ln s) = outFile s @ blk)"
    using receiveRound_outFile [of crc opened ln s] by (simp add: BLOCK_SIZE_def)
next
  assume "awaitStart crc ln 0 (receiver_init False) = Go s0"
  from awaitStart_Go [OF this] have "outFile s0 = []"
    by (simp add: receiver_init_def)
  then show "128 dvd length (outFile ((receiveRound crc opened ln ^^ n) s0))"
    by (simp add: iterates_dvd)
next
  assume r: "receiveFile crc opened ln = Some (res, s')"
  show "128 dvd length (outFile s')"
  proof (cases "awaitStart crc ln 0 (receiver_init False)")
    case (Return x)
    with r awaitStart_Return [of crc ln 0 "receiver_init False" res s'] show ?thesis
      by (simp add: receiveFile_def receiver_init_def)
  next
    case (Go t)
    from awaitStart_Go [OF Go] have t: "outFile t = []"
      by (simp add: receiver_init_def)
    show ?thesis
    proof (cases "receiving t")
      case False
      with r Go t show ?thesis by (simp add: receiveFile_def)
    next
      case True
      with r Go have "receiveLoop crc opened ln t = Some s'"
        by (simp add: receiveFile_def split: option.splits)
      from receiveLoop_dvd [OF this] t show ?thesis by simp
    qed
  qed
next
  assume "XModem_awaitStart crc ln late 0 (receiver_init True) = Go (k, s0)"
  with XModem_awaitStart_result [of crc ln late 0 "receiver_init True" k s0]
  have "outFile s0 = []"
    by (simp add: receiver_init_def)
  then show "128 dvd length (outFile ((receiveRound crc opened ln ^^ n) s0))"
    by (simp add: iterates_dvd)
next
  assume r: "XModem_receiveFile crc opened ln late = Some (res, s')"
  show "128 dvd length (outFile s')"
  proof (cases opened)
    case False
    with r show ?thesis by (auto simp: XModem_receiveFile_def receiver_init_def)
  next
    case True
    show ?thesis
    proof (cases "XModem_awaitStart crc ln late 0 (receiver_init True)")
      case (Return x)
      with r True XModem_awaitStart_result [of crc ln late 0 "receiver_init True" _ s' res]
      show ?thesis
        by (simp add: XModem_receiveFile_def receiver_init_def)
    next
      case (Go x)
      obtain k t where x: "x = (k, t)" by (cases x)
      from XModem_awaitStart_result [of crc ln late 0 "receiver_init True" k t] Go x
      have t: "outFile t = []"
        by (simp add: receiver_init_def)
      show ?thesis
      proof (cases "k \<ge> 6")
        case True
        with r Go x t \<open>opened\<close> show ?thesis by (simp add: XModem_receiveFile_def)
      next
        case False
        with r Go x \<open>opened\<close> have "receiveLoop crc opened ln t = Some s'"
          by (simp add: XModem_receiveFile_def split: option.splits)
        from receiveLoop_dvd [OF this] t show ?thesis by simp
      qed
    qed
  qed
qed

text \<open>
  C9, at the transfer of one block: the output file holds 128 bytes.
\<close>

theorem receiver_output_whole_blocks_witness:
  "awaitStart False (script one_block) 0 (receiver_init False)
     = Go \<lparr>reads = Suc 0, sent = [NAK], outFile = [], expectedBlock = 1, headerByte = SOH,
            receiving = True\<rparr>
   \<and> receiveFile False True (script one_block) = Some (True, received_one)
   \<and> XModem_receiveFile False True (script one_block) (\<lambda>n. False) = Some (True, received_one)
   \<and> outFile received_one = replicate 128 0
   \<and> 128 dvd length (outFile received_one)"
  using receiver_output_whole_blocks
      [of False True "script one_block" _ _ _ True received_one "\<lambda>n. False"]
    start_one_block receiveFile_one_block XModem_receiveFile_one_block
  by (simp add: received_one_def)

subsection \<open>\<open>EOT\<close> in the start phase\<close>

lemma awaitStart_EOT:
  assumes "i + d < 6"
    and "\<forall>j<d. delivers (ln (reads s + j)) \<noteq> Some SOH \<and> delivers (ln (reads s + j)) \<noteq> Some EOT"
    and "delivers (ln (reads s + d)) = Some EOT"
  shows "\<exists>s'. awaitStart crc ln i s = Return (True, s')
           \<and> sent s' = sent s @ replicate (Suc d) (if crc then C else NAK) @ [ACK]
           \<and> outFile s' = outFile s \<and> reads s' = reads s + Suc d"
  using assms
proof (induction d arbitrary: i s)
  case 0
  let ?w = "writeByte (if crc then C else NAK) s"
  have "delivers (ln (reads ?w)) = Some EOT"
    using 0 by simp
  from readByte_Some [of ln ?w EOT "headerByte s", OF this] 0(1) show ?case
    using awaitStart_unfold [of i ln s crc 1 EOT "?w\<lparr>reads := Suc (reads ?w)\<rparr>"]
    by (simp add: SOH_neq_EOT [symmetric])
next
  case (Suc d)
  let ?w = "writeByte (if crc then C else NAK) s"
  obtain r hb s1 where rd: "readByteWithTimeout ln (headerByte s) ?w = (r, hb, s1)"
    by (metis prod_cases3)
  note st = readByte_state [OF rd]
  have no: "delivers (ln (reads s)) \<noteq> Some SOH \<and> delivers (ln (reads s)) \<noteq> Some EOT"
    using Suc.prems(2) by (metis add.right_neutral zero_less_Suc)
  have skip: "\<not> (r > 0 \<and> hb = SOH)" "\<not> (r > 0 \<and> hb = EOT)"
    using st no by (auto split: if_splits)
  let ?s2 = "s1\<lparr>headerByte := hb\<rparr>"
  have step: "awaitStart crc ln i s = awaitStart crc ln (i + 1) ?s2"
    using awaitStart_unfold [OF _ rd, of i] Suc.prems(1) skip by auto
  have rs: "reads ?s2 = Suc (reads s)" "sent ?s2 = sent s @ [if crc then C else NAK]"
      "outFile ?s2 = outFile s"
    using st by simp_all
  have "\<exists>s'. awaitStart crc ln (i + 1) ?s2 = Return (True, s')
           \<and> sent s' = sent ?s2 @ replicate (Suc d) (if crc then C else NAK) @ [ACK]
           \<and> outFile s' = outFile ?s2 \<and> reads s' = reads ?s2 + Suc d"
  proof (rule Suc.IH)
    show "i + 1 + d < 6" using Suc.prems(1) by simp
    show "\<forall>j<d. delivers (ln (reads ?s2 + j)) \<noteq> Some SOH
               \<and> delivers (ln (reads ?s2 + j)) \<noteq> Some EOT"
      using Suc.prems(2) rs(1) by (metis Suc_less_eq add_Suc_shift)
    show "delivers (ln (reads ?s2 + d)) = Some EOT"
      using Suc.prems(3) rs(1) by simp
  qed
  then show ?case
    unfolding step rs by (auto simp: replicate_append_same)
qed

lemma XModem_awaitStart_EOT:
  assumes "i + d < 6"
    and "\<forall>j<d. delivers (ln (reads s + j)) \<noteq> Some SOH \<and> delivers (ln (reads s + j)) \<noteq> Some EOT"
    and "delivers (ln (reads s + d)) = Some EOT"
    and "\<forall>j<d. \<not> late (i + Suc j)"
  shows "\<exists>s'. XModem_awaitStart crc ln late i s = Return (True, s')
           \<and> sent s' = sent s @ replicate (Suc d) (if crc then C else NAK) @ [ACK]
           \<and> outFile s' = outFile s \<and> reads s' = reads s + Suc d"
  using assms
proof (induction d arbitrary: i s)
  case 0
  let ?w = "requestAgain crc s"
  have "delivers (ln (reads ?w)) = Some EOT"
    using 0 by simp
  from readByte_Some [of ln ?w EOT "headerByte s", OF this] 0(1) show ?case
    using XModem_awaitStart_unfold [of i ln s crc 1 EOT "?w\<lparr>reads := Suc (reads ?w)\<rparr>" late]
    by (simp add: SOH_neq_EOT [symmetric])
next
  case (Suc d)
  let ?w = "requestAgain crc s"
  obtain r hb s1 where rd: "readByteWithTimeout ln (headerByte s) ?w = (r, hb, s1)"
    by (metis prod_cases3)
  note st = readByte_state [OF rd]
  have no: "delivers (ln (reads s)) \<noteq> Some SOH \<and> delivers (ln (reads s)) \<noteq> Some EOT"
    using Suc.prems(2) by (metis add.right_neutral zero_less_Suc)
  have skip: "\<not> (r > 0 \<and> hb = SOH)" "\<not> (r > 0 \<and> hb = EOT)"
    using st no by (auto split: if_splits)
  have nl: "\<not> late (i + 1)"
    using Suc.prems(4) by (metis One_nat_def zero_less_Suc)
  let ?s2 = "s1\<lparr>headerByte := hb\<rparr>"
  have step: "XModem_awaitStart crc ln late i s = XModem_awaitStart crc ln late (i + 1) ?s2"
    using XModem_awaitStart_unfold [OF _ rd, of i late] Suc.prems(1) skip nl by auto
  have rs: "reads ?s2 = Suc (reads s)" "sent ?s2 = sent s @ [if crc then C else NAK]"
      "outFile ?s2 = outFile s"
    using st by simp_all
  have "\<exists>s'. XModem_awaitStart crc ln late (i + 1) ?s2 = Return (True, s')
           \<and> sent s' = sent ?s2 @ replicate (Suc d) (if crc then C else NAK) @ [ACK]
           \<and> outFile s' = outFile ?s2 \<and> reads s' = reads ?s2 + Suc d"
  proof (rule Suc.IH)
    show "i + 1 + d < 6" using Suc.prems(1) by simp
    show "\<forall>j<d. delivers (ln (reads ?s2 + j)) \<noteq> Some SOH
               \<and> delivers (ln (reads ?s2 + j)) \<noteq> Some EOT"
      using Suc.prems(2) rs(1) by (metis Suc_less_eq add_Suc_shift)
    show "delivers (ln (reads ?s2 + d)) = Some EOT"
      using Suc.prems(3) rs(1) by simp
    show "\<forall>j<d. \<not> late (i + 1 + Suc j)"
      using Suc.prems(4) by (metis Suc_less_eq add_Suc_shift Suc_eq_plus1)
  qed
  then show ?case
    unfolding step rs by (auto simp: replicate_append_same)
qed

text \<open>
  C7. If the read of attempt \<open>k\<close> of the start phase (\<open>k < 6\<close>, the earlier attempts
  having obtained neither \<open>SOH\<close> nor \<open>EOT\<close>, and for \<open>XModem::receiveFile\<close> the 60
  seconds not having passed) obtains \<open>EOT\<close>, the receiver writes \<open>ACK\<close> right after
  the mode bytes it has announced, reads nothing more, returns \<open>true\<close>, and the output
  file is empty.
\<close>

theorem receiveFile_EOT_in_start_phase:
  "(k < 6 \<and> (\<forall>j<k. delivers (ln j) \<noteq> Some SOH \<and> delivers (ln j) \<noteq> Some EOT)
      \<and> delivers (ln k) = Some EOT
    \<longrightarrow> (\<exists>s'. receiveFile crc opened ln = Some (True, s')
           \<and> sent s' = replicate (Suc k) (if crc then C else NAK) @ [ACK]
           \<and> reads s' = Suc k \<and> outFile s' = []))
   \<and> (k < 6 \<and> (\<forall>j<k. delivers (ln j) \<noteq> Some SOH \<and> delivers (ln j) \<noteq> Some EOT)
      \<and> delivers (ln k) = Some EOT \<and> (\<forall>j<k. \<not> late (Suc j))
    \<longrightarrow> (\<exists>s'. XModem_receiveFile crc True ln late = Some (True, s')
           \<and> sent s' = replicate (Suc k) (if crc then C else NAK) @ [ACK]
           \<and> reads s' = Suc k \<and> outFile s' = []))"
proof (intro conjI impI)
  assume a: "k < 6 \<and> (\<forall>j<k. delivers (ln j) \<noteq> Some SOH \<and> delivers (ln j) \<noteq> Some EOT)
      \<and> delivers (ln k) = Some EOT"
  have "\<exists>s'. awaitStart crc ln 0 (receiver_init False) = Return (True, s')
           \<and> sent s' = sent (receiver_init False) @ replicate (Suc k) (if crc then C else NAK) @ [ACK]
           \<and> outFile s' = outFile (receiver_init False)
           \<and> reads s' = reads (receiver_init False) + Suc k"
    by (rule awaitStart_EOT) (use a in \<open>simp_all add: receiver_init_def\<close>)
  then show "\<exists>s'. receiveFile crc opened ln = Some (True, s')
           \<and> sent s' = replicate (Suc k) (if crc then C else NAK) @ [ACK]
           \<and> reads s' = Suc k \<and> outFile s' = []"
    by (auto simp: receiveFile_def receiver_init_def)
next
  assume a: "k < 6 \<and> (\<forall>j<k. delivers (ln j) \<noteq> Some SOH \<and> delivers (ln j) \<noteq> Some EOT)
      \<and> delivers (ln k) = Some EOT \<and> (\<forall>j<k. \<not> late (Suc j))"
  have "\<exists>s'. XModem_awaitStart crc ln late 0 (receiver_init True) = Return (True, s')
           \<and> sent s' = sent (receiver_init True) @ replicate (Suc k) (if crc then C else NAK) @ [ACK]
           \<and> outFile s' = outFile (receiver_init True)
           \<and> reads s' = reads (receiver_init True) + Suc k"
    by (rule XModem_awaitStart_EOT) (use a in \<open>simp_all add: receiver_init_def\<close>)
  then show "\<exists>s'. XModem_receiveFile crc True ln late = Some (True, s')
           \<and> sent s' = replicate (Suc k) (if crc then C else NAK) @ [ACK]
           \<and> reads s' = Suc k \<and> outFile s' = []"
    by (auto simp: XModem_receiveFile_def receiver_init_def)
qed

lemma late_EOT_delivers:
  "delivers (late_EOT 0) = None" "delivers (late_EOT (Suc 0)) = None"
  "delivers (late_EOT 2) = Some EOT"
  by (simp_all add: late_EOT_def script_def)

text \<open>
  C7, at a line whose first two reads fail and whose third read obtains \<open>EOT\<close>.
\<close>

theorem receiveFile_EOT_in_start_phase_witness:
  "delivers (late_EOT 0) = None \<and> delivers (late_EOT (Suc 0)) = None
   \<and> delivers (late_EOT 2) = Some EOT
   \<and> (\<exists>s'. receiveFile True True late_EOT = Some (True, s')
           \<and> sent s' = [C, C, C, ACK] \<and> reads s' = 3 \<and> outFile s' = [])
   \<and> (\<exists>s'. XModem_receiveFile True True late_EOT (\<lambda>n. 5 < n) = Some (True, s')
           \<and> sent s' = [C, C, C, ACK] \<and> reads s' = 3 \<and> outFile s' = [])"
proof -
  have h: "\<forall>j<2. delivers (late_EOT j) \<noteq> Some SOH \<and> delivers (late_EOT j) \<noteq> Some EOT"
    using late_EOT_delivers by (auto simp: less_Suc_eq numeral_2_eq_2)
  have l: "\<forall>j<2::nat. \<not> (\<lambda>n::nat. 5 < n) (Suc j)"
    by simp
  show ?thesis
    using receiveFile_EOT_in_start_phase [of 2 late_EOT True True "\<lambda>n. 5 < n"] h l
      late_EOT_delivers
    by (simp add: numeral_3_eq_3)
qed

subsection \<open>Block number and complement\<close>

lemma length_resize: "length (resize n v) = n"
  by (simp add: resize_def)

lemma buildPacket_complement:
  "buildPacket crc b buf pkt ! 1 = b \<and> buildPacket crc b buf pkt ! 2 = 255 - b"
  by (simp add: buildPacket_def Let_def BLOCK_SIZE_def length_resize nth_append)

lemma unat_complement: "unat (255 - b :: byte) = 255 - unat b"
proof -
  have "unat b < 256"
    using unsigned_less [of b, where 'a = nat] by simp
  then have "b \<le> 255"
    by (simp add: word_le_nat_alt)
  then show ?thesis
    by (simp add: unat_sub)
qed

lemma sendAttempt_writes:
  "sendAttempt ln s = (r, response, s1) \<Longrightarrow>
     sent s1 = sent s @ buildPacket (useCRC s) (blockNumber s) (buffer s) (packet s)"
  by (auto simp: sendAttempt_def Let_def writeAll_def dest!: readByte_state)

lemma readBlock_mismatch:
  assumes "delivers (ln (reads s)) = Some bn" "delivers (ln (Suc (reads s))) = Some bc"
    and "unat bn + unat bc \<noteq> 255"
  shows "readBlock crc ln s = Inl (requestAgain crc (s\<lparr>reads := Suc (Suc (reads s))\<rparr>))"
proof -
  let ?s1 = "s\<lparr>reads := Suc (reads s)\<rparr>"
  have r1: "readByteWithTimeout ln 0 s = (1, bn, ?s1)"
    using readByte_Some [of ln s bn 0, OF assms(1)] .
  have "delivers (ln (reads ?s1)) = Some bc"
    using assms(2) by simp
  from readByte_Some [of ln ?s1 bc 0, OF this]
  have r2: "readByteWithTimeout ln 0 ?s1 = (1, bc, s\<lparr>reads := Suc (Suc (reads s))\<rparr>)"
    by simp
  show ?thesis
    using assms(3) by (simp add: readBlock_def r1 r2)
qed

text \<open>
  C4. Every frame the sender builds, in checksum mode and in CRC mode, carries the
  block number at index 1 and \<open>255 - blockNumber\<close> at index 2, and it is this frame that
  each attempt writes to the line. A round of the receiver that reads a block number and
  a complement whose sum is not 255 appends nothing to the output file, leaves
  \<open>expectedBlock\<close> as it is, writes the mode byte to ask for the block again, and stays
  in block reception.
\<close>

theorem complement_emitted_and_checked:
  "buildPacket crc b buf pkt ! 1 = b
   \<and> buildPacket crc b buf pkt ! 2 = 255 - b
   \<and> unat (buildPacket crc b buf pkt ! 1) + unat (buildPacket crc b buf pkt ! 2) = 255
   \<and> (sendAttempt ln' t = (r, response, t1) \<longrightarrow>
         (\<exists>frame. sent t1 = sent t @ frame \<and> frame ! 1 = blockNumber t
                  \<and> frame ! 2 = 255 - blockNumber t))
   \<and> (headerByte s = SOH \<and> delivers (ln (reads s)) = Some bn
        \<and> delivers (ln (Suc (reads s))) = Some bc \<and> unat bn + unat bc \<noteq> 255
       \<longrightarrow> outFile (receiveRound crc opened ln s) = outFile s
         \<and> expectedBlock (receiveRound crc opened ln s) = expectedBlock s
         \<and> sent (receiveRound crc opened ln s) = sent s @ [if crc then C else NAK]
         \<and> headerByte (receiveRound crc opened ln s) = SOH
         \<and> receiving (receiveRound crc opened ln s) = receiving s
         \<and> reads (receiveRound crc opened ln s) = reads s + 2)"
proof (intro conjI impI)
  show "buildPacket crc b buf pkt ! 1 = b" "buildPacket crc b buf pkt ! 2 = 255 - b"
    using buildPacket_complement by simp_all
  have "unat b \<le> 255"
    using unsigned_less [of b, where 'a = nat] by simp
  then show "unat (buildPacket crc b buf pkt ! 1) + unat (buildPacket crc b buf pkt ! 2) = 255"
    using buildPacket_complement [of crc b buf pkt] unat_complement [of b] by simp
next
  assume "sendAttempt ln' t = (r, response, t1)"
  from sendAttempt_writes [OF this] show "\<exists>frame. sent t1 = sent t @ frame
      \<and> frame ! 1 = blockNumber t \<and> frame ! 2 = 255 - blockNumber t"
    using buildPacket_complement by blast
next
  assume a: "headerByte s = SOH \<and> delivers (ln (reads s)) = Some bn
        \<and> delivers (ln (Suc (reads s))) = Some bc \<and> unat bn + unat bc \<noteq> 255"
  then have rr: "receiveRound crc opened ln s = requestAgain crc (s\<lparr>reads := Suc (Suc (reads s))\<rparr>)"
    using readBlock_mismatch [of ln s bn bc crc] by (simp add: receiveRound_def)
  show "outFile (receiveRound crc opened ln s) = outFile s"
    "expectedBlock (receiveRound crc opened ln s) = expectedBlock s"
    "sent (receiveRound crc opened ln s) = sent s @ [if crc then C else NAK]"
    "headerByte (receiveRound crc opened ln s) = SOH"
    "receiving (receiveRound crc opened ln s) = receiving s"
    "reads (receiveRound crc opened ln s) = reads s + 2"
    unfolding rr using a by simp_all
qed

text \<open>
  C4, at concrete inputs: the frame for block 1 carries 254, and a round that reads the
  block number 1 with the complement 1 writes \<open>NAK\<close> and keeps the file empty.
\<close>

theorem complement_emitted_and_checked_witness:
  "buildPacket False 1 (replicate 128 0) [] ! 2 = 254
   \<and> (\<exists>frame. sent (snd (snd (sendAttempt silence (sender_init False)))) = [] @ frame
          \<and> frame ! 1 = 1 \<and> frame ! 2 = 255 - 1)
   \<and> delivers (bad_complement 0) = Some 1 \<and> delivers (bad_complement (Suc 0)) = Some 1
   \<and> outFile (receiveRound False True bad_complement await_block) = []
   \<and> expectedBlock (receiveRound False True bad_complement await_block) = 1
   \<and> sent (receiveRound False True bad_complement await_block) = [NAK]
   \<and> headerByte (receiveRound False True bad_complement await_block) = SOH
   \<and> receiving (receiveRound False True bad_complement await_block)
   \<and> reads (receiveRound False True bad_complement await_block) = 2"
  using complement_emitted_and_checked
    [of False 1 "replicate 128 0" "[]" silence "sender_init False"
        "fst (sendAttempt silence (sender_init False))"
        "fst (snd (sendAttempt silence (sender_init False)))"
        "snd (snd (sendAttempt silence (sender_init False)))"
        await_block bad_complement 1 1 True]
  by (simp add: await_block_def bad_complement_def script_def sender_init_def)

subsection \<open>Duplicates and sequencing\<close>

lemma receiveRound_valid:
  assumes "headerByte s = SOH" "readBlock crc ln s = Inr (bn, blk, s1)"
  shows "receiveRound crc opened ln s =
           (case acceptBlock opened bn blk s1 of Inl s' \<Rightarrow> s' | Inr s2 \<Rightarrow> nextHeader ln s2)"
  using assms by (simp add: receiveRound_def)

text \<open>
  C5. For a round whose block passed the complement test and the check (\<open>readBlock\<close>
  returns the block): if the block number is \<open>expectedBlock - 1\<close> and
  \<open>expectedBlock > 1\<close>, the receiver answers \<open>ACK\<close> and the output file and
  \<open>expectedBlock\<close> stay as they are; if it is \<open>expectedBlock\<close>, the receiver appends
  the 128 bytes of the payload to the open output file, answers \<open>ACK\<close> and increments
  \<open>expectedBlock\<close>; for any other block number it answers \<open>NAK\<close>, and neither the
  output file nor \<open>expectedBlock\<close> changes. After an \<open>ACK\<close> the round goes on to read
  the next header, which may write one more byte.
\<close>

theorem receiveRound_sequencing:
  "headerByte s = SOH \<and> readBlock crc ln s = Inr (bn, blk, s1) \<longrightarrow>
     (int (unat bn) = int (unat (expectedBlock s)) - 1 \<and> unat (expectedBlock s) > 1 \<longrightarrow>
        (\<exists>rest. sent (receiveRound crc opened ln s) = sent s @ ACK # rest \<and> length rest \<le> 1)
        \<and> outFile (receiveRound crc opened ln s) = outFile s
        \<and> expectedBlock (receiveRound crc opened ln s) = expectedBlock s)
     \<and> (bn = expectedBlock s \<longrightarrow>
        (\<exists>rest. sent (receiveRound crc opened ln s) = sent s @ ACK # rest \<and> length rest \<le> 1)
        \<and> outFile (receiveRound crc opened ln s)
            = (if opened then outFile s @ blk else outFile s)
        \<and> length blk = 128
        \<and> expectedBlock (receiveRound crc opened ln s) = expectedBlock s + 1)
     \<and> (\<not> (int (unat bn) = int (unat (expectedBlock s)) - 1 \<and> unat (expectedBlock s) > 1)
          \<and> bn \<noteq> expectedBlock s \<longrightarrow>
        sent (receiveRound crc opened ln s) = sent s @ [NAK]
        \<and> outFile (receiveRound crc opened ln s) = outFile s
        \<and> expectedBlock (receiveRound crc opened ln s) = expectedBlock s)"
proof (intro impI)
  assume a: "headerByte s = SOH \<and> readBlock crc ln s = Inr (bn, blk, s1)"
  then have rb: "outFile s1 = outFile s" "expectedBlock s1 = expectedBlock s"
      "sent s1 = sent s" "length blk = 128"
    using readBlock_Inr [of crc ln s bn blk s1] by (simp_all add: BLOCK_SIZE_def)
  note rr = receiveRound_valid [of s crc ln bn blk s1 opened]
  let ?dup = "int (unat bn) = int (unat (expectedBlock s)) - 1 \<and> unat (expectedBlock s) > 1"
  show "(?dup \<longrightarrow>
        (\<exists>rest. sent (receiveRound crc opened ln s) = sent s @ ACK # rest \<and> length rest \<le> 1)
        \<and> outFile (receiveRound crc opened ln s) = outFile s
        \<and> expectedBlock (receiveRound crc opened ln s) = expectedBlock s)
     \<and> (bn = expectedBlock s \<longrightarrow>
        (\<exists>rest. sent (receiveRound crc opened ln s) = sent s @ ACK # rest \<and> length rest \<le> 1)
        \<and> outFile (receiveRound crc opened ln s)
            = (if opened then outFile s @ blk else outFile s)
        \<and> length blk = 128
        \<and> expectedBlock (receiveRound crc opened ln s) = expectedBlock s + 1)
     \<and> (\<not> ?dup \<and> bn \<noteq> expectedBlock s \<longrightarrow>
        sent (receiveRound crc opened ln s) = sent s @ [NAK]
        \<and> outFile (receiveRound crc opened ln s) = outFile s
        \<and> expectedBlock (receiveRound crc opened ln s) = expectedBlock s)"
  proof (intro conjI impI)
    assume d: ?dup
    then have ab: "acceptBlock opened bn blk s1 = Inr (writeByte ACK s1)"
      using rb by (simp add: acceptBlock_def)
    have r: "receiveRound crc opened ln s = nextHeader ln (writeByte ACK s1)"
      using rr a ab by simp
    show "\<exists>rest. sent (receiveRound crc opened ln s) = sent s @ ACK # rest \<and> length rest \<le> 1"
      unfolding r using nextHeader_sent [of ln "writeByte ACK s1"] rb by auto
    show "outFile (receiveRound crc opened ln s) = outFile s"
      "expectedBlock (receiveRound crc opened ln s) = expectedBlock s"
      unfolding r using rb by (simp_all add: nextHeader_fields)
  next
    assume e: "bn = expectedBlock s"
    then have nd: "\<not> ?dup" by auto
    let ?s2 = "(writeByte ACK (s1\<lparr>outFile := (if opened then outFile s1 @ blk else outFile s1)\<rparr>))
                  \<lparr>expectedBlock := expectedBlock s1 + 1\<rparr>"
    have ab: "acceptBlock opened bn blk s1 = Inr ?s2"
      using rb e nd by (simp add: acceptBlock_def)
    have r: "receiveRound crc opened ln s = nextHeader ln ?s2"
      using rr a ab by simp
    show "\<exists>rest. sent (receiveRound crc opened ln s) = sent s @ ACK # rest \<and> length rest \<le> 1"
      unfolding r using nextHeader_sent [of ln ?s2] rb by auto
    show "outFile (receiveRound crc opened ln s) = (if opened then outFile s @ blk else outFile s)"
      "expectedBlock (receiveRound crc opened ln s) = expectedBlock s + 1"
      unfolding r using rb by (simp_all add: nextHeader_fields)
    show "length blk = 128" by (rule rb)
  next
    assume o: "\<not> ?dup \<and> bn \<noteq> expectedBlock s"
    then have ab: "acceptBlock opened bn blk s1 = Inl (writeByte NAK s1)"
      using rb by (simp add: acceptBlock_def)
    have r: "receiveRound crc opened ln s = writeByte NAK s1"
      using rr a ab by simp
    show "sent (receiveRound crc opened ln s) = sent s @ [NAK]"
      "outFile (receiveRound crc opened ln s) = outFile s"
      "expectedBlock (receiveRound crc opened ln s) = expectedBlock s"
      unfolding r using rb by simp_all
  qed
qed

lemma block_one_reads:
  "block_one 0 = ReadData [1]" "block_one (Suc 0) = ReadData [254]"
  "block_one (Suc (Suc 0)) = ReadData (replicate 128 0)"
  "block_one (Suc (Suc (Suc 0))) = ReadData [0]"
  "block_one (Suc (Suc (Suc (Suc 0)))) = ReadData [SOH]"
  by (simp_all add: block_one_def script_def)

lemma readBlock_block_one:
  "reads s = 0 \<Longrightarrow>
     readBlock False block_one s = Inr (1, replicate 128 0, s\<lparr>reads := Suc (Suc (Suc (Suc 0)))\<rparr>)"
  by (simp add: readBlock_def readByteWithTimeout_def readWithTimeout_def block_one_reads
      BLOCK_SIZE_def checksum_zeros)

text \<open>
  C5, at the line that carries block 1 and then \<open>SOH\<close>: a receiver that expects
  block 1 stores it, one that expects block 2 acknowledges it without storing, and one
  that expects block 5 answers \<open>NAK\<close>.
\<close>

theorem receiveRound_sequencing_witness:
  "readBlock False block_one await_block
      = Inr (1, replicate 128 0, await_block\<lparr>reads := 4\<rparr>)
   \<and> sent (receiveRound False True block_one await_block) = [ACK]
   \<and> outFile (receiveRound False True block_one await_block) = replicate 128 0
   \<and> expectedBlock (receiveRound False True block_one await_block) = 2
   \<and> sent (receiveRound False True block_one
              (await_block\<lparr>outFile := replicate 128 7, expectedBlock := 2\<rparr>)) = [ACK]
   \<and> outFile (receiveRound False True block_one
              (await_block\<lparr>outFile := replicate 128 7, expectedBlock := 2\<rparr>)) = replicate 128 7
   \<and> expectedBlock (receiveRound False True block_one
              (await_block\<lparr>outFile := replicate 128 7, expectedBlock := 2\<rparr>)) = 2
   \<and> sent (receiveRound False True block_one (await_block\<lparr>expectedBlock := 5\<rparr>)) = [NAK]
   \<and> outFile (receiveRound False True block_one (await_block\<lparr>expectedBlock := 5\<rparr>)) = []
   \<and> expectedBlock (receiveRound False True block_one (await_block\<lparr>expectedBlock := 5\<rparr>)) = 5"
proof -
  have r1: "readBlock False block_one await_block
      = Inr (1, replicate 128 0, await_block\<lparr>reads := Suc (Suc (Suc (Suc 0)))\<rparr>)"
    by (rule readBlock_block_one) (simp add: await_block_def)
  have r2: "readBlock False block_one (await_block\<lparr>outFile := replicate 128 7, expectedBlock := 2\<rparr>)
      = Inr (1, replicate 128 0,
             await_block\<lparr>outFile := replicate 128 7, expectedBlock := 2,
                           reads := Suc (Suc (Suc (Suc 0)))\<rparr>)"
    by (rule readBlock_block_one) (simp add: await_block_def)
  have r3: "readBlock False block_one (await_block\<lparr>expectedBlock := 5\<rparr>)
      = Inr (1, replicate 128 0,
             await_block\<lparr>expectedBlock := 5, reads := Suc (Suc (Suc (Suc 0)))\<rparr>)"
    by (rule readBlock_block_one) (simp add: await_block_def)
  have n1: "sent (nextHeader block_one (t\<lparr>reads := Suc (Suc (Suc (Suc 0)))\<rparr>))
              = sent t" for t :: receiver
    by (simp add: nextHeader_def readByteWithTimeout_def readWithTimeout_def block_one_reads
        SOH_neq_EOT)
  show ?thesis
    using receiveRound_sequencing [of await_block False block_one 1 "replicate 128 0"
            "await_block\<lparr>reads := Suc (Suc (Suc (Suc 0)))\<rparr>" True]
      receiveRound_sequencing
          [of "await_block\<lparr>outFile := replicate 128 7, expectedBlock := 2\<rparr>"
              False block_one 1 "replicate 128 0"
              "await_block\<lparr>outFile := replicate 128 7, expectedBlock := 2,
                            reads := Suc (Suc (Suc (Suc 0)))\<rparr>" True]
      receiveRound_sequencing [of "await_block\<lparr>expectedBlock := 5\<rparr>" False block_one 1
            "replicate 128 0"
            "await_block\<lparr>expectedBlock := 5, reads := Suc (Suc (Suc (Suc 0)))\<rparr>" True]
      r1 r2 r3
    apply (simp add: await_block_def)
    apply (simp add: receiveRound_def r1 [unfolded await_block_def, simplified]
        r2 [unfolded await_block_def, simplified] r3 [unfolded await_block_def, simplified]
        acceptBlock_def nextHeader_def readByteWithTimeout_def readWithTimeout_def block_one_reads
        writeByte_def writeAll_def SOH_neq_EOT)
    done
qed

subsection \<open>The sender\<close>

lemma take3_updates:
  assumes "3 \<le> length xs"
  shows "take 3 (xs[0 := a, 1 := b, 2 := c]) = [a, b, c]"
proof -
  obtain x0 x1 x2 rest where "xs = x0 # x1 # x2 # rest"
    using assms by (metis (no_types, opaque_lifting) Suc_le_length_iff numeral_3_eq_3)
  then show ?thesis by (simp add: numeral_3_eq_3 numeral_2_eq_2)
qed

lemma list_of_length_1: "length xs = Suc 0 \<Longrightarrow> \<exists>x. xs = [x]"
  by (cases xs) auto

lemma list_of_length_2: "length xs = 2 \<Longrightarrow> \<exists>x y. xs = [x, y]"
  by (cases xs; cases "tl xs") auto

lemma buildPacket_frame:
  assumes "length buf = BLOCK_SIZE"
  shows "buildPacket crc b buf pkt = frame crc b buf"
proof (cases crc)
  case False
  let ?p3 = "(resize (BLOCK_SIZE + 4) pkt)[0 := SOH, 1 := b, 2 := 255 - b]"
  have bp: "buildPacket crc b buf pkt
      = (take 3 ?p3 @ buf @ drop (3 + length buf) ?p3)[BLOCK_SIZE + 3 := calculateChecksum buf]"
    unfolding buildPacket_def Let_def by (simp only: False if_False)
  have t: "take 3 ?p3 = [SOH, b, 255 - b]"
    by (rule take3_updates) (simp add: length_resize BLOCK_SIZE_def)
  have "length (drop (3 + length buf) ?p3) = Suc 0"
    using assms by (simp add: length_resize BLOCK_SIZE_def)
  then obtain z where z: "drop (3 + length buf) ?p3 = [z]"
    using list_of_length_1 by blast
  have upd: "([SOH, b, 255 - b] @ buf @ [z])[BLOCK_SIZE + 3 := c] = [SOH, b, 255 - b] @ buf @ [c]"
    for c
    using assms by (simp add: list_update_append BLOCK_SIZE_def)
  show ?thesis
    unfolding bp t z upd frame_def using False by simp
next
  case True
  let ?p3 = "(resize (BLOCK_SIZE + 5) pkt)[0 := SOH, 1 := b, 2 := 255 - b]"
  let ?h = "ucast (drop_bit 8 (calculateCRC16 buf) AND 0xFF) :: byte"
  let ?l = "ucast (calculateCRC16 buf AND 0xFF) :: byte"
  have bp: "buildPacket crc b buf pkt
      = (take 3 ?p3 @ buf @ drop (3 + length buf) ?p3)[BLOCK_SIZE + 3 := ?h, BLOCK_SIZE + 4 := ?l]"
    unfolding buildPacket_def Let_def by (simp only: True if_True)
  have t: "take 3 ?p3 = [SOH, b, 255 - b]"
    by (rule take3_updates) (simp add: length_resize BLOCK_SIZE_def)
  have "length (drop (3 + length buf) ?p3) = 2"
    using assms by (simp add: length_resize BLOCK_SIZE_def)
  then obtain z1 z2 where z: "drop (3 + length buf) ?p3 = [z1, z2]"
    using list_of_length_2 by blast
  have upd: "([SOH, b, 255 - b] @ buf @ [z1, z2])[BLOCK_SIZE + 3 := h, BLOCK_SIZE + 4 := l]
          = [SOH, b, 255 - b] @ buf @ [h, l]" for h l
    using assms by (simp add: list_update_append BLOCK_SIZE_def)
  show ?thesis
    unfolding bp t z upd frame_def using True by simp
qed

lemma sendAttempt_fields:
  assumes "sendAttempt ln s = (r, x, s1)" "length (buffer s) = BLOCK_SIZE"
  shows "sent s1 = sent s @ frame (useCRC s) (blockNumber s) (buffer s)"
    "reads s1 = Suc (reads s)" "useCRC s1 = useCRC s" "blockNumber s1 = blockNumber s"
    "buffer s1 = buffer s" "retries s1 = retries s"
    "if r > 0 then delivers (ln (reads s)) = Some x else delivers (ln (reads s)) = None"
  using assms
  by (auto simp: sendAttempt_def Let_def writeAll_def buildPacket_frame dest!: readByte_state)

lemma sendBlock_unfold:
  assumes "retries s < MAX_RETRIES" "sendAttempt ln s = (r, x, s1)"
  shows "sendBlock ln False s =
     (if r > 0 \<and> x = ACK
        then sendBlock ln True (s1\<lparr>blockNumber := blockNumber s1 + 1, retries := retries s1 + 1\<rparr>)
      else if r > 0 \<and> x \<noteq> NAK \<and> x = CAN then Return (False, s1)
      else sendBlock ln False (s1\<lparr>retries := retries s1 + 1\<rparr>))"
  by (subst sendBlock.simps) (simp add: assms)

lemma sendBlock_acked: "sendBlock ln True s = Go (True, s)"
  by (subst sendBlock.simps) simp

lemma sendBlock_exhausted: "MAX_RETRIES \<le> retries s \<Longrightarrow> sendBlock ln False s = Go (False, s)"
  by (subst sendBlock.simps) simp

lemma ctrl_distinct: "NAK \<noteq> ACK" "NAK \<noteq> CAN" "ACK \<noteq> NAK" "ACK \<noteq> CAN"
  by (simp_all add: ctrl_defs)

lemma sendBlock_NAKs:
  assumes "length (buffer s) = BLOCK_SIZE" "retries s + d = MAX_RETRIES"
    and "\<forall>j<d. delivers (ln (reads s + j)) = Some NAK"
  shows "\<exists>s'. sendBlock ln False s = Go (False, s')
           \<and> sent s' = sent s
               @ concat (replicate d (frame (useCRC s) (blockNumber s) (buffer s)))
           \<and> reads s' = reads s + d"
  using assms
proof (induction d arbitrary: s)
  case 0
  then show ?case by (simp add: sendBlock_exhausted)
next
  case (Suc d)
  obtain r x s1 where at: "sendAttempt ln s = (r, x, s1)"
    by (metis prod_cases3)
  note f = sendAttempt_fields [OF at Suc.prems(1)]
  have "delivers (ln (reads s)) = Some NAK"
    using Suc.prems(3) by (metis add.right_neutral zero_less_Suc)
  with f(7) have rx: "r > 0" "x = NAK"
    by (auto split: if_splits)
  let ?s2 = "s1\<lparr>retries := retries s1 + 1\<rparr>"
  have step: "sendBlock ln False s = sendBlock ln False ?s2"
    using sendBlock_unfold [OF _ at] Suc.prems(2) rx by (simp add: ctrl_distinct)
  have "\<exists>s'. sendBlock ln False ?s2 = Go (False, s')
           \<and> sent s' = sent ?s2
               @ concat (replicate d (frame (useCRC ?s2) (blockNumber ?s2) (buffer ?s2)))
           \<and> reads s' = reads ?s2 + d"
  proof (rule Suc.IH)
    show "length (buffer ?s2) = BLOCK_SIZE" using f Suc.prems(1) by simp
    show "retries ?s2 + d = MAX_RETRIES" using f Suc.prems(2) by simp
    have "reads ?s2 = Suc (reads s)" using f(2) by simp
    then show "\<forall>j<d. delivers (ln (reads ?s2 + j)) = Some NAK"
      using Suc.prems(3) by (metis Suc_less_eq add_Suc_shift)
  qed
  then show ?case
    unfolding step using f by auto
qed

lemma sendBlock_ACK:
  assumes "length (buffer s) = BLOCK_SIZE" "retries s < MAX_RETRIES"
    and "delivers (ln (reads s)) = Some ACK"
  shows "\<exists>s'. sendBlock ln False s = Go (True, s')
           \<and> sent s' = sent s @ frame (useCRC s) (blockNumber s) (buffer s)
           \<and> reads s' = Suc (reads s) \<and> useCRC s' = useCRC s
           \<and> blockNumber s' = blockNumber s + 1 \<and> buffer s' = buffer s"
proof -
  obtain r x s1 where at: "sendAttempt ln s = (r, x, s1)"
    by (metis prod_cases3)
  note f = sendAttempt_fields [OF at assms(1)]
  from f(7) assms(3) have rx: "r > 0" "x = ACK"
    by (auto split: if_splits)
  show ?thesis
    using sendBlock_unfold [OF assms(2) at] rx f by (simp add: sendBlock_acked)
qed

lemma chunk_0:
  "chunk dat 0 = take BLOCK_SIZE dat @ replicate (BLOCK_SIZE - length (take BLOCK_SIZE dat)) 0x1A"
  by (simp add: chunk_def Let_def)

lemma chunk_drop: "chunk (drop BLOCK_SIZE dat) i = chunk dat (Suc i)"
  by (simp add: chunk_def Let_def add.commute)

lemma length_chunk: "length (chunk dat i) = BLOCK_SIZE"
  by (simp add: chunk_def Let_def)

lemma sendBlocks_step:
  assumes "dat \<noteq> []" "length (buffer s) = BLOCK_SIZE"
  shows "\<exists>t. sendBlocks ln dat s =
            (case sendBlock ln False t of
               Return res \<Rightarrow> res
             | Go (acked, s2) \<Rightarrow>
                 if \<not> acked then (False, s2) else sendBlocks ln (drop BLOCK_SIZE dat) s2)
          \<and> buffer t = chunk dat 0 \<and> retries t = 0 \<and> sent t = sent s \<and> reads t = reads s
          \<and> useCRC t = useCRC s \<and> blockNumber t = blockNumber s"
proof -
  let ?n = "length (take BLOCK_SIZE dat)"
  let ?s1 = "s\<lparr>buffer := take BLOCK_SIZE dat @ drop ?n (buffer s)\<rparr>"
  let ?t = "(padBuffer ?n ?s1)\<lparr>retries := 0\<rparr>"
  have rc: "readChunk dat s = (?n, drop BLOCK_SIZE dat, ?s1)"
    by (simp add: readChunk_def Let_def)
  have n0: "min (length dat) BLOCK_SIZE \<noteq> 0"
    using assms(1) by (simp add: BLOCK_SIZE_def)
  have unf: "sendBlocks ln dat s =
            (case sendBlock ln False ?t of
               Return res \<Rightarrow> res
             | Go (acked, s2) \<Rightarrow>
                 if \<not> acked then (False, s2) else sendBlocks ln (drop BLOCK_SIZE dat) s2)"
    by (subst sendBlocks.simps) (simp add: rc assms(1) n0)
  have buf: "buffer ?t = chunk dat 0"
    using assms(2) by (auto simp: padBuffer_def chunk_0 min_def)
  have rest: "retries ?t = 0" "sent ?t = sent s" "reads ?t = reads s" "useCRC ?t = useCRC s"
      "blockNumber ?t = blockNumber s"
    by (simp_all add: padBuffer_def)
  show ?thesis
    using unf buf rest by blast
qed

lemma sendBlocks_NAKs:
  assumes "dat \<noteq> []" "length (buffer s) = BLOCK_SIZE"
    and "\<forall>j<MAX_RETRIES. delivers (ln (reads s + j)) = Some NAK"
  shows "\<exists>s'. sendBlocks ln dat s = (False, s')
           \<and> sent s' = sent s
               @ concat (replicate MAX_RETRIES (frame (useCRC s) (blockNumber s) (chunk dat 0)))
           \<and> reads s' = reads s + MAX_RETRIES"
proof -
  from sendBlocks_step [OF assms(1,2), of ln] obtain t where
    unf: "sendBlocks ln dat s =
            (case sendBlock ln False t of
               Return res \<Rightarrow> res
             | Go (acked, s2) \<Rightarrow>
                 if \<not> acked then (False, s2) else sendBlocks ln (drop BLOCK_SIZE dat) s2)"
    and t: "buffer t = chunk dat 0" "retries t = 0" "sent t = sent s" "reads t = reads s"
      "useCRC t = useCRC s" "blockNumber t = blockNumber s"
    by blast
  have "\<exists>s'. sendBlock ln False t = Go (False, s')
           \<and> sent s' = sent t
               @ concat (replicate MAX_RETRIES (frame (useCRC t) (blockNumber t) (buffer t)))
           \<and> reads s' = reads t + MAX_RETRIES"
    by (rule sendBlock_NAKs) (use t assms(3) in \<open>simp_all add: length_chunk\<close>)
  then show ?thesis
    unfolding unf using t by auto
qed

lemma sendBlocks_ACK:
  assumes "dat \<noteq> []" "length (buffer s) = BLOCK_SIZE"
    and "delivers (ln (reads s)) = Some ACK"
  shows "\<exists>s1. sendBlocks ln dat s = sendBlocks ln (drop BLOCK_SIZE dat) s1
           \<and> sent s1 = sent s @ frame (useCRC s) (blockNumber s) (chunk dat 0)
           \<and> reads s1 = Suc (reads s) \<and> useCRC s1 = useCRC s
           \<and> blockNumber s1 = blockNumber s + 1 \<and> length (buffer s1) = BLOCK_SIZE"
proof -
  from sendBlocks_step [OF assms(1,2), of ln] obtain t where
    unf: "sendBlocks ln dat s =
            (case sendBlock ln False t of
               Return res \<Rightarrow> res
             | Go (acked, s2) \<Rightarrow>
                 if \<not> acked then (False, s2) else sendBlocks ln (drop BLOCK_SIZE dat) s2)"
    and t: "buffer t = chunk dat 0" "retries t = 0" "sent t = sent s" "reads t = reads s"
      "useCRC t = useCRC s" "blockNumber t = blockNumber s"
    by blast
  have "\<exists>s'. sendBlock ln False t = Go (True, s')
           \<and> sent s' = sent t @ frame (useCRC t) (blockNumber t) (buffer t)
           \<and> reads s' = Suc (reads t) \<and> useCRC s' = useCRC t
           \<and> blockNumber s' = blockNumber t + 1 \<and> buffer s' = buffer t"
    by (rule sendBlock_ACK) (use t assms(3) in \<open>simp_all add: length_chunk MAX_RETRIES_def\<close>)
  then show ?thesis
    unfolding unf using t by (auto simp: length_chunk)
qed

lemma sendBlocks_ACKs_then_NAKs:
  assumes "BLOCK_SIZE * k < length dat" "length (buffer s) = BLOCK_SIZE"
    and "\<forall>j<k. delivers (ln (reads s + j)) = Some ACK"
    and "\<forall>j<MAX_RETRIES. delivers (ln (reads s + k + j)) = Some NAK"
  shows "\<exists>s'. sendBlocks ln dat s = (False, s')
           \<and> sent s' = sent s
               @ concat (map (\<lambda>i. frame (useCRC s) (blockNumber s + of_nat i) (chunk dat i)) [0..<k])
               @ concat (replicate MAX_RETRIES
                          (frame (useCRC s) (blockNumber s + of_nat k) (chunk dat k)))
           \<and> reads s' = reads s + k + MAX_RETRIES"
  using assms
proof (induction k arbitrary: dat s)
  case 0
  then have "dat \<noteq> []" by auto
  from sendBlocks_NAKs [OF this 0(2), of ln] 0(4) show ?case by simp
next
  case (Suc k)
  then have ne: "dat \<noteq> []" by auto
  have "delivers (ln (reads s)) = Some ACK"
    using Suc.prems(3) by (metis add.right_neutral zero_less_Suc)
  from sendBlocks_ACK [of dat s ln, OF ne Suc.prems(2) this] obtain s1 where
    step: "sendBlocks ln dat s = sendBlocks ln (drop BLOCK_SIZE dat) s1"
    and s1: "sent s1 = sent s @ frame (useCRC s) (blockNumber s) (chunk dat 0)"
      "reads s1 = Suc (reads s)" "useCRC s1 = useCRC s" "blockNumber s1 = blockNumber s + 1"
      "length (buffer s1) = BLOCK_SIZE"
    by blast
  let ?rest = "drop BLOCK_SIZE dat"
  have "\<exists>s'. sendBlocks ln ?rest s1 = (False, s')
           \<and> sent s' = sent s1
               @ concat (map (\<lambda>i. frame (useCRC s1) (blockNumber s1 + of_nat i) (chunk ?rest i)) [0..<k])
               @ concat (replicate MAX_RETRIES
                          (frame (useCRC s1) (blockNumber s1 + of_nat k) (chunk ?rest k)))
           \<and> reads s' = reads s1 + k + MAX_RETRIES"
  proof (rule Suc.IH)
    show "BLOCK_SIZE * k < length ?rest"
      using Suc.prems(1) by simp
    show "length (buffer s1) = BLOCK_SIZE" by (rule s1)
    show "\<forall>j<k. delivers (ln (reads s1 + j)) = Some ACK"
      using Suc.prems(3) s1(2) by (metis Suc_less_eq add_Suc_shift)
    show "\<forall>j<MAX_RETRIES. delivers (ln (reads s1 + k + j)) = Some NAK"
      using Suc.prems(4) s1(2) by simp
  qed
  then obtain s' where r: "sendBlocks ln ?rest s1 = (False, s')"
    "sent s' = sent s1
               @ concat (map (\<lambda>i. frame (useCRC s1) (blockNumber s1 + of_nat i) (chunk ?rest i)) [0..<k])
               @ concat (replicate MAX_RETRIES
                          (frame (useCRC s1) (blockNumber s1 + of_nat k) (chunk ?rest k)))"
    "reads s' = reads s1 + k + MAX_RETRIES"
    by blast
  have shift: "map (\<lambda>i. frame (useCRC s) (blockNumber s + of_nat i) (chunk dat i)) [0..<Suc k]
      = frame (useCRC s) (blockNumber s) (chunk dat 0)
        # map (\<lambda>i. frame (useCRC s) (blockNumber s + 1 + of_nat i) (chunk dat (Suc i))) [0..<k]"
  proof -
    have "[0..<Suc k] = 0 # map Suc [0..<k]"
      by (simp add: upt_conv_Cons map_Suc_upt del: upt_Suc)
    then show ?thesis
      by (simp add: comp_def add.assoc del: upt_Suc)
  qed
  have "sent s' = sent s
               @ concat (map (\<lambda>i. frame (useCRC s) (blockNumber s + of_nat i) (chunk dat i)) [0..<Suc k])
               @ concat (replicate MAX_RETRIES
                          (frame (useCRC s) (blockNumber s + of_nat (Suc k)) (chunk dat (Suc k))))"
    unfolding shift r(2) s1 chunk_drop by (simp add: add.assoc)
  moreover have "reads s' = reads s + Suc k + MAX_RETRIES"
    using r(3) s1(2) by simp
  ultimately show ?case
    unfolding step using r(1) by blast
qed

lemma awaitInitiation_stop:
  "\<not> (waitingForInitiation s \<and> retries s < MAX_RETRIES) \<Longrightarrow> awaitInitiation ln s = Some s"
  by (subst awaitInitiation.simps) auto

lemma awaitInitiation_step:
  "waitingForInitiation s \<Longrightarrow> retries s < MAX_RETRIES \<Longrightarrow>
     awaitInitiation ln s = awaitInitiation ln (initiationRound ln s)"
  by (subst awaitInitiation.simps) simp

lemma awaitInitiation_first:
  assumes "delivers (ln 0) = Some m" "m = NAK \<or> m = C"
  shows "awaitInitiation ln (sender_init crc0)
           = Some ((sender_init crc0)\<lparr>reads := 1, useCRC := (m = C), waitingForInitiation := False\<rparr>)"
proof -
  have rd: "readByteWithTimeout ln 0 (sender_init crc0)
              = (1, m, (sender_init crc0)\<lparr>reads := Suc 0\<rparr>)"
    using readByte_Some [of ln "sender_init crc0" m 0] assms(1) by (simp add: sender_init_def)
  have "NAK \<noteq> C" by (simp add: ctrl_defs)
  then have ir: "initiationRound ln (sender_init crc0)
      = (sender_init crc0)\<lparr>reads := 1, useCRC := (m = C), waitingForInitiation := False\<rparr>"
    using assms(2) by (auto simp: initiationRound_def rd)
  have "awaitInitiation ln (sender_init crc0) = awaitInitiation ln (initiationRound ln (sender_init crc0))"
    by (rule awaitInitiation_step) (simp_all add: sender_init_def MAX_RETRIES_def)
  also have "\<dots> = Some (initiationRound ln (sender_init crc0))"
    by (rule awaitInitiation_stop) (simp add: ir)
  finally show ?thesis by (simp add: ir)
qed

text \<open>
  C6. Whatever the block (any block number, any mode, any state of the sender at the
  start of a round of the block loop with a file that is not exhausted), if the next
  \<open>MAX_RETRIES\<close> reads all obtain \<open>NAK\<close>, the sender writes the frame of that block
  exactly \<open>MAX_RETRIES\<close> times and nothing else, and the result is \<open>false\<close>. For
  \<open>sendFile\<close> as a whole: after the mode byte and \<open>k\<close> acknowledged blocks, ten
  \<open>NAK\<close> for block \<open>k + 1\<close> make \<open>sendFile\<close> return \<open>false\<close> after eleven plus
  \<open>k\<close> reads, having written the \<open>k\<close> acknowledged frames once each and the frame of
  block \<open>k + 1\<close> ten times.
\<close>

theorem sender_gives_up_after_MAX_RETRIES:
  "MAX_RETRIES = 10
   \<and> (dat \<noteq> [] \<and> length (buffer s) = BLOCK_SIZE
       \<and> (\<forall>j<MAX_RETRIES. delivers (ln (reads s + j)) = Some NAK)
      \<longrightarrow> (\<exists>s'. sendBlocks ln dat s = (False, s')
             \<and> sent s' = sent s
                 @ concat (replicate MAX_RETRIES (frame (useCRC s) (blockNumber s) (chunk dat 0)))
             \<and> reads s' = reads s + MAX_RETRIES))
   \<and> (delivers (ln 0) = Some m \<and> (m = NAK \<or> m = C) \<and> BLOCK_SIZE * k < length dat
       \<and> (\<forall>j<k. delivers (ln (Suc j)) = Some ACK)
       \<and> (\<forall>j<MAX_RETRIES. delivers (ln (Suc k + j)) = Some NAK)
      \<longrightarrow> (\<exists>s'. sendFile crc0 True dat ln = Some (False, s')
             \<and> sent s' = concat (map (\<lambda>i. frame (m = C) (1 + of_nat i) (chunk dat i)) [0..<k])
                 @ concat (replicate MAX_RETRIES (frame (m = C) (1 + of_nat k) (chunk dat k)))
             \<and> reads s' = Suc k + MAX_RETRIES))"
proof (intro conjI impI)
  show "MAX_RETRIES = 10" by (simp add: MAX_RETRIES_def)
next
  assume "dat \<noteq> [] \<and> length (buffer s) = BLOCK_SIZE
       \<and> (\<forall>j<MAX_RETRIES. delivers (ln (reads s + j)) = Some NAK)"
  then show "\<exists>s'. sendBlocks ln dat s = (False, s')
             \<and> sent s' = sent s
                 @ concat (replicate MAX_RETRIES (frame (useCRC s) (blockNumber s) (chunk dat 0)))
             \<and> reads s' = reads s + MAX_RETRIES"
    using sendBlocks_NAKs [of dat s ln] by blast
next
  assume a: "delivers (ln 0) = Some m \<and> (m = NAK \<or> m = C) \<and> BLOCK_SIZE * k < length dat
       \<and> (\<forall>j<k. delivers (ln (Suc j)) = Some ACK)
       \<and> (\<forall>j<MAX_RETRIES. delivers (ln (Suc k + j)) = Some NAK)"
  let ?s0 = "(sender_init crc0)\<lparr>reads := 1, useCRC := (m = C), waitingForInitiation := False\<rparr>"
  have hs: "awaitInitiation ln (sender_init crc0) = Some ?s0"
    using awaitInitiation_first a by blast
  have f0: "sent ?s0 = []" "useCRC ?s0 = (m = C)" "blockNumber ?s0 = 1" "reads ?s0 = 1"
      "length (buffer ?s0) = BLOCK_SIZE" "\<not> waitingForInitiation ?s0"
    by (simp_all add: sender_init_def)
  have "\<exists>s'. sendBlocks ln dat ?s0 = (False, s')
           \<and> sent s' = sent ?s0
               @ concat (map (\<lambda>i. frame (useCRC ?s0) (blockNumber ?s0 + of_nat i) (chunk dat i)) [0..<k])
               @ concat (replicate MAX_RETRIES
                          (frame (useCRC ?s0) (blockNumber ?s0 + of_nat k) (chunk dat k)))
           \<and> reads s' = reads ?s0 + k + MAX_RETRIES"
    by (rule sendBlocks_ACKs_then_NAKs) (use a f0 in simp_all)
  then obtain s' where r: "sendBlocks ln dat ?s0 = (False, s')"
    "sent s' = concat (map (\<lambda>i. frame (m = C) (1 + of_nat i) (chunk dat i)) [0..<k])
               @ concat (replicate MAX_RETRIES (frame (m = C) (1 + of_nat k) (chunk dat k)))"
    "reads s' = Suc k + MAX_RETRIES"
    unfolding f0 by auto
  have "sendFile crc0 True dat ln = Some (False, s')"
    unfolding sendFile_def hs using f0(6) r(1) by simp
  with r(2,3) show "\<exists>s'. sendFile crc0 True dat ln = Some (False, s')
             \<and> sent s' = concat (map (\<lambda>i. frame (m = C) (1 + of_nat i) (chunk dat i)) [0..<k])
                 @ concat (replicate MAX_RETRIES (frame (m = C) (1 + of_nat k) (chunk dat k)))
             \<and> reads s' = Suc k + MAX_RETRIES"
    by blast
qed

text \<open>
  C6, at a file of 200 bytes and a peer that answers \<open>NAK\<close> to everything, and at a
  peer that acknowledges block 1 and answers \<open>NAK\<close> to block 2.
\<close>

theorem sender_gives_up_after_MAX_RETRIES_witness:
  "delivers (only_NAK 0) = Some NAK \<and> delivers (only_NAK 10) = Some NAK
   \<and> (\<exists>s'. sendFile False True (replicate 200 0x41) only_NAK = Some (False, s')
          \<and> sent s' = concat (replicate 10 (frame False 1 (chunk (replicate 200 0x41) 0)))
          \<and> reads s' = 11)
   \<and> delivers (one_ACK_then_NAK 1) = Some ACK
   \<and> (\<exists>s'. sendFile False True (replicate 200 0x41) one_ACK_then_NAK = Some (False, s')
          \<and> sent s' = frame False 1 (chunk (replicate 200 0x41) 0)
              @ concat (replicate 10 (frame False 2 (chunk (replicate 200 0x41) 1)))
          \<and> reads s' = 12)"
proof -
  let ?dat = "replicate 200 (0x41 :: byte)"
  have mode: "(NAK = C) = False"
    by (simp add: ctrl_defs)
  have a1: "delivers (only_NAK 0) = Some NAK \<and> (NAK = NAK \<or> NAK = C)
      \<and> BLOCK_SIZE * 0 < length ?dat
      \<and> (\<forall>j<0. delivers (only_NAK (Suc j)) = Some ACK)
      \<and> (\<forall>j<MAX_RETRIES. delivers (only_NAK (Suc 0 + j)) = Some NAK)"
    by (simp add: only_NAK_def)
  have a2: "delivers (one_ACK_then_NAK 0) = Some NAK \<and> (NAK = NAK \<or> NAK = C)
      \<and> BLOCK_SIZE * 1 < length ?dat
      \<and> (\<forall>j<1. delivers (one_ACK_then_NAK (Suc j)) = Some ACK)
      \<and> (\<forall>j<MAX_RETRIES. delivers (one_ACK_then_NAK (Suc 1 + j)) = Some NAK)"
    by (simp add: one_ACK_then_NAK_def BLOCK_SIZE_def)
  from a1 sender_gives_up_after_MAX_RETRIES
      [of ?dat "sender_init False" only_NAK NAK 0 False]
  have c1: "\<exists>s'. sendFile False True ?dat only_NAK = Some (False, s')
             \<and> sent s' = concat (map (\<lambda>i. frame (NAK = C) (1 + of_nat i) (chunk ?dat i)) [0..<0])
                 @ concat (replicate MAX_RETRIES (frame (NAK = C) (1 + of_nat 0) (chunk ?dat 0)))
             \<and> reads s' = Suc 0 + MAX_RETRIES"
    by blast
  from a2 sender_gives_up_after_MAX_RETRIES
      [of ?dat "sender_init False" one_ACK_then_NAK NAK 1 False]
  have c2: "\<exists>s'. sendFile False True ?dat one_ACK_then_NAK = Some (False, s')
             \<and> sent s' = concat (map (\<lambda>i. frame (NAK = C) (1 + of_nat i) (chunk ?dat i)) [0..<1])
                 @ concat (replicate MAX_RETRIES (frame (NAK = C) (1 + of_nat 1) (chunk ?dat 1)))
             \<and> reads s' = Suc 1 + MAX_RETRIES"
    by blast
  have d: "delivers (only_NAK 0) = Some NAK" "delivers (only_NAK 10) = Some NAK"
    "delivers (one_ACK_then_NAK 1) = Some ACK"
    by (simp_all add: only_NAK_def one_ACK_then_NAK_def)
  from c1 have c1': "\<exists>s'. sendFile False True ?dat only_NAK = Some (False, s')
          \<and> sent s' = concat (replicate 10 (frame False 1 (chunk ?dat 0)))
          \<and> reads s' = 11"
    unfolding mode MAX_RETRIES_def by simp
  from c2 have c2': "\<exists>s'. sendFile False True ?dat one_ACK_then_NAK = Some (False, s')
          \<and> sent s' = frame False 1 (chunk ?dat 0)
              @ concat (replicate 10 (frame False 2 (chunk ?dat 1)))
          \<and> reads s' = 12"
    unfolding mode MAX_RETRIES_def by simp
  from d c1' c2' show ?thesis by blast
qed

subsection \<open>Files that do not open\<close>

lemma sendFile_unopened:
  "\<exists>s. sendFile crc0 False dat ln = Some (False, s) \<and> reads s = 0 \<and> sent s = []"
  by (simp add: sendFile_def sender_init_def)

lemma XModem_receiveFile_unopened:
  "\<exists>s. XModem_receiveFile crc False ln late = Some (False, s) \<and> reads s = 0 \<and> sent s = []"
  by (simp add: XModem_receiveFile_def receiver_init_def)

lemma round1_one_block_unopened:
  "receiveRound False False (script one_block)
      \<lparr>reads = Suc 0, sent = [NAK], outFile = [], expectedBlock = 1, headerByte = SOH, receiving = True\<rparr>
     = \<lparr>reads = 6, sent = [NAK, ACK, ACK], outFile = [], expectedBlock = 2,
         headerByte = EOT, receiving = False\<rparr>"
  by (simp add: receiveRound_def readBlock_def acceptBlock_def nextHeader_def
      readByteWithTimeout_def readWithTimeout_def writeByte_def writeAll_def requestAgain_def
      script_one_block BLOCK_SIZE_def checksum_zeros ctrl_defs)

text \<open>
  C8 holds for \<open>sendFile\<close> and for \<open>XModem::receiveFile\<close>, which return \<open>false\<close>
  before any read or write when their file did not open (the two lemmas above). The free
  function \<open>receiveFile\<close> has no such test: with an output file that did not open and
  a line that carries one block and \<open>EOT\<close>, it announces the mode, reads six times,
  acknowledges the block and the \<open>EOT\<close>, and returns \<open>true\<close>, while nothing is stored.
\<close>

theorem receiveFile_unopened_output_proceeds:
  "receiveFile False False (script one_block)
     = Some (True, \<lparr>reads = 6, sent = [NAK, ACK, ACK], outFile = [], expectedBlock = 2,
                     headerByte = EOT, receiving = False\<rparr>)"
  by (simp add: receiveFile_def start_one_block receiveLoop_step round1_one_block_unopened
      receiveLoop_stop)

end
